theory Spec2Isabelle
  imports Main
begin

section \<open>Data model of \<open>server.c\<close>\<close>

text \<open>
  The server keeps two arrays of equal length on the stack of \<open>main\<close>: \<open>pfds\<close>
  (one \<open>struct pollfd\<close> per slot, \<open>fd = -1\<close> marking a free slot) and \<open>timers\<close>
  (one POSIX timer handle per slot). Everything else it touches lives in the kernel:
  the timer objects behind the handles, the table of open descriptors, \<open>errno\<close>, and
  the two output streams. The two \<open>volatile sig_atomic_t\<close> flags are process globals.
  All of it is gathered in one record that every function takes and returns.
\<close>

type_synonym timer_t = nat

record timespec =
  tv_sec :: int
  tv_nsec :: int

record itimerspec =
  it_interval :: timespec
  it_value :: timespec

record pollfd =
  fd :: int
  events :: int
  revents :: int

text \<open>
  The descriptors, the event masks and the count returned by \<open>poll\<close> are of C's
  \<open>int\<close> and \<open>short\<close>; the program compares them, tests a bit and decrements the
  count from at most the number of slots, so they are integers here and no
  arithmetic on them can overflow.
\<close>

text \<open>Lines written to \<open>stderr\<close> (by \<open>perror\<close> and \<open>fprintf\<close>), one constructor per format.\<close>

datatype diagnostic =
    Perror string
  | Progress string
  | Client_connected nat
  | Too_many_connections
  | Client_timed_out nat
  | Client_disconnected nat
  | Failed_read nat
  | Failed_signal_action int

text \<open>
  Bookkeeping for the ordering properties, not program state: \<open>Wait\<close> is recorded when
  the loop calls \<open>poll\<close>, \<open>Service i\<close> when the loop consumes the pending event of
  slot \<open>i\<close> (the line \<open>--active\<close>).
\<close>

datatype step = Wait | Service nat

record state =
  pfds :: "pollfd list"
  timers :: "timer_t list"
  ktimers :: "itimerspec option list"
  open_fds :: "int set"
  errno :: int
  timeout_triggered :: int
  interrupt_triggered :: int
  stderr :: "diagnostic list"
  stdout :: "(nat \<times> string) list"
  trace :: "step list"

text \<open>What a call that may terminate the process yields: \<open>exit(code)\<close> or a return.\<close>

datatype 'a run = Exit int state | Ret 'a state

fun run_state :: "'a run \<Rightarrow> state" where
  "run_state (Exit c st) = st"
| "run_state (Ret x st) = st"

subsection \<open>Compile-time constants\<close>

definition MAX_CONNECTIONS :: nat where "MAX_CONNECTIONS = 10"
definition PORT :: nat where "PORT = 1337"
definition BUFFER_SIZE :: nat where "BUFFER_SIZE = 1024"
definition TIMEOUT :: int where "TIMEOUT = 30"

definition SIGINT :: int where "SIGINT = 2"
definition SIGUSR1 :: int where "SIGUSR1 = 10"
definition TIMEOUT_SIGNAL :: int where "TIMEOUT_SIGNAL = SIGUSR1"

definition EINTR :: int where "EINTR = 4"
definition EBADF :: int where "EBADF = 9"
definition EAGAIN :: int where "EAGAIN = 11"
definition ENOMEM :: int where "ENOMEM = 12"
definition EINVAL :: int where "EINVAL = 22"

definition POLLIN :: int where "POLLIN = 1"

definition EXIT_SUCCESS :: int where "EXIT_SUCCESS = 0"
definition EXIT_FAILURE :: int where "EXIT_FAILURE = 1"

definition NUL :: char where "NUL = CHR 0x00"

subsection \<open>The kernel side of the calls the server makes\<close>

text \<open>
  A timer handle is an index into the kernel's table \<open>ktimers\<close>; a deleted or never
  created handle is invalid. \<open>timer_create\<close> takes the next index, so a new handle is
  never one that is in use. With the arguments this program passes (a null old-value
  pointer, zero or \<open>TIMEOUT\<close> whole seconds) the timer calls fail only on an invalid
  handle, with \<open>EINVAL\<close>.
\<close>

definition zero_timespec :: timespec where
  "zero_timespec = \<lparr>tv_sec = 0, tv_nsec = 0\<rparr>"

text \<open>A timer with no pending deadline: \<open>struct itimerspec its = {0}\<close>.\<close>

definition disarmed :: itimerspec where
  "disarmed = \<lparr>it_interval = zero_timespec, it_value = zero_timespec\<rparr>"

definition kernel_timer :: "state \<Rightarrow> timer_t \<Rightarrow> itimerspec option" where
  "kernel_timer st t = (if t < length (ktimers st) then ktimers st ! t else None)"

definition live_timers :: "state \<Rightarrow> timer_t set" where
  "live_timers st = {t. kernel_timer st t \<noteq> None}"

text \<open>\<open>sys_timer_create ok i\<close>: \<open>timer_create(CLOCK_REALTIME, &event, &timers[i])\<close>;
  whether the kernel grants the timer is the environment's choice \<open>ok\<close>.\<close>

definition sys_timer_create :: "bool \<Rightarrow> nat \<Rightarrow> state \<Rightarrow> int \<times> state" where
  "sys_timer_create ok i st =
     (if ok
      then (0, st\<lparr>timers := (timers st)[i := length (ktimers st)],
                  ktimers := ktimers st @ [Some disarmed]\<rparr>)
      else (-1, st\<lparr>errno := EAGAIN\<rparr>))"

definition sys_timer_delete :: "timer_t \<Rightarrow> state \<Rightarrow> int \<times> state" where
  "sys_timer_delete t st =
     (case kernel_timer st t of
        None \<Rightarrow> (-1, st\<lparr>errno := EINVAL\<rparr>)
      | Some _ \<Rightarrow> (0, st\<lparr>ktimers := (ktimers st)[t := None]\<rparr>))"

definition sys_timer_settime :: "timer_t \<Rightarrow> itimerspec \<Rightarrow> state \<Rightarrow> int \<times> state" where
  "sys_timer_settime t its st =
     (case kernel_timer st t of
        None \<Rightarrow> (-1, st\<lparr>errno := EINVAL\<rparr>)
      | Some _ \<Rightarrow> (0, st\<lparr>ktimers := (ktimers st)[t := Some its]\<rparr>))"

definition sys_timer_gettime :: "timer_t \<Rightarrow> state \<Rightarrow> (int \<times> itimerspec) \<times> state" where
  "sys_timer_gettime t st =
     (case kernel_timer st t of
        None \<Rightarrow> ((-1, disarmed), st\<lparr>errno := EINVAL\<rparr>)
      | Some its \<Rightarrow> ((0, its), st))"

definition sys_close :: "int \<Rightarrow> state \<Rightarrow> int \<times> state" where
  "sys_close s st =
     (if s \<in> open_fds st then (0, st\<lparr>open_fds := open_fds st - {s}\<rparr>)
      else (-1, st\<lparr>errno := EBADF\<rparr>))"

definition perror :: "string \<Rightarrow> state \<Rightarrow> state" where
  "perror msg st = st\<lparr>stderr := stderr st @ [Perror msg]\<rparr>"

definition report :: "diagnostic \<Rightarrow> state \<Rightarrow> state" where
  "report d st = st\<lparr>stderr := stderr st @ [d]\<rparr>"

subsection \<open>Signal handlers\<close>

definition interrupt_handler :: "int \<Rightarrow> state \<Rightarrow> state" where
  "interrupt_handler sig st = st\<lparr>interrupt_triggered := 1\<rparr>"

definition timeout_handler :: "int \<Rightarrow> state \<Rightarrow> state" where
  "timeout_handler sig st = st\<lparr>timeout_triggered := 1\<rparr>"

text \<open>Delivery of a signal once both handlers are installed (other signals are not
  handled by the program and are left out).\<close>

definition deliver :: "int \<Rightarrow> state \<Rightarrow> state" where
  "deliver sig st =
     (if sig = SIGINT then interrupt_handler sig st
      else if sig = TIMEOUT_SIGNAL then timeout_handler sig st
      else st)"

definition deliver_all :: "int list \<Rightarrow> state \<Rightarrow> state" where
  "deliver_all sigs st = fold deliver sigs st"

subsection \<open>Passing of time\<close>

text \<open>
  A one-shot timer counts its remaining time down; when it reaches zero the timer is
  disarmed (its remaining time reads zero from then on) and the kernel raises
  \<open>TIMEOUT_SIGNAL\<close>. \<open>elapse d\<close> lets \<open>d\<close> nanoseconds pass.
\<close>

definition ns_of :: "timespec \<Rightarrow> int" where
  "ns_of ts = tv_sec ts * 1000000000 + tv_nsec ts"

definition timespec_of_ns :: "int \<Rightarrow> timespec" where
  "timespec_of_ns k = \<lparr>tv_sec = k div 1000000000, tv_nsec = k mod 1000000000\<rparr>"

definition runs_out :: "nat \<Rightarrow> itimerspec option \<Rightarrow> bool" where
  "runs_out d k =
     (case k of None \<Rightarrow> False
      | Some its \<Rightarrow> 0 < ns_of (it_value its) \<and> ns_of (it_value its) \<le> int d)"

definition elapse_timer :: "nat \<Rightarrow> itimerspec option \<Rightarrow> itimerspec option" where
  "elapse_timer d k =
     (case k of None \<Rightarrow> None
      | Some its \<Rightarrow>
          (if ns_of (it_value its) \<le> 0 then Some its
           else if ns_of (it_value its) \<le> int d then Some (its\<lparr>it_value := zero_timespec\<rparr>)
           else Some (its\<lparr>it_value := timespec_of_ns (ns_of (it_value its) - int d)\<rparr>)))"

definition elapse :: "nat \<Rightarrow> state \<Rightarrow> state" where
  "elapse d st =
     (let st1 = st\<lparr>ktimers := map (elapse_timer d) (ktimers st)\<rparr>
      in if list_ex (runs_out d) (ktimers st) then deliver TIMEOUT_SIGNAL st1 else st1)"

section \<open>Timer set\<close>

function destroy_timers_from :: "nat \<Rightarrow> nat \<Rightarrow> state \<Rightarrow> int \<times> state" where
  "destroy_timers_from i n st =
     (if i < n then
        (case sys_timer_delete (timers st ! i) st of
           (r, st1) \<Rightarrow>
             if r \<noteq> 0 then (1, perror ''Failed to destroy timer'' st1)
             else destroy_timers_from (Suc i) n st1)
      else (0, st))"
  by pat_completeness auto
termination
  by (relation "measure (\<lambda>(i, n, st). n - i)") auto

definition destroy_timers :: "nat \<Rightarrow> state \<Rightarrow> int \<times> state" where
  "destroy_timers n st = destroy_timers_from 0 n st"

text \<open>\<open>ok i\<close> tells whether the \<open>i\<close>-th \<open>timer_create\<close> of the loop succeeds.\<close>

function create_timers_from :: "nat \<Rightarrow> nat \<Rightarrow> (nat \<Rightarrow> bool) \<Rightarrow> state \<Rightarrow> int \<times> state" where
  "create_timers_from i n ok st =
     (if i < n then
        (case sys_timer_create (ok i) i st of
           (r, st1) \<Rightarrow>
             if r \<noteq> 0 then
               (1, snd (destroy_timers i (perror ''Failed to create timer'' st1)))
             else create_timers_from (Suc i) n ok st1)
      else (0, st))"
  by pat_completeness auto
termination
  by (relation "measure (\<lambda>(i, n, ok, st). n - i)") auto

definition create_timers :: "nat \<Rightarrow> (nat \<Rightarrow> bool) \<Rightarrow> state \<Rightarrow> int \<times> state" where
  "create_timers n ok st = create_timers_from 0 n ok st"

text \<open>\<open>struct itimerspec its = {.it_value.tv_sec = TIMEOUT}\<close>.\<close>

definition full_deadline :: itimerspec where
  "full_deadline = \<lparr>it_interval = zero_timespec,
                     it_value = \<lparr>tv_sec = TIMEOUT, tv_nsec = 0\<rparr>\<rparr>"

definition arm_timer :: "timer_t \<Rightarrow> state \<Rightarrow> int \<times> state" where
  "arm_timer timer st =
     (let its = full_deadline
      in case sys_timer_settime timer its st of
           (r, st1) \<Rightarrow> if r \<noteq> 0 then (1, perror ''Failed to arm timer'' st1) else (0, st1))"

definition disarm_timer :: "timer_t \<Rightarrow> state \<Rightarrow> int \<times> state" where
  "disarm_timer timer st =
     (let its = disarmed
      in case sys_timer_settime timer its st of
           (r, st1) \<Rightarrow> if r \<noteq> 0 then (1, perror ''Failed to disarm timer'' st1) else (0, st1))"

definition timer_expired :: "timer_t \<Rightarrow> state \<Rightarrow> bool run" where
  "timer_expired timer st =
     (case sys_timer_gettime timer st of
        ((r, its), st1) \<Rightarrow>
          if r \<noteq> 0 then Exit EXIT_FAILURE (perror ''Failed to get state of timer'' st1)
          else if tv_sec (it_value its) = 0 \<and> tv_nsec (it_value its) = 0 then Ret True st1
          else Ret False st1)"

section \<open>Connection table\<close>

text \<open>
  A pointer \<open>&pfds[i]\<close> is the index \<open>i\<close>. The compile-time constant
  \<open>MAX_CONNECTIONS\<close> ("must be > 1") is the parameter \<open>mc\<close> of the functions that
  mention it, so that what is proved holds for every admissible value; \<open>main\<close> passes
  the value of the source.
\<close>

text \<open>What the environment answers to \<open>accept\<close>: a new descriptor, or \<open>errno\<close>.\<close>

datatype accept_result = Accepted int | Accept_failed int

definition sys_accept :: "int \<Rightarrow> accept_result \<Rightarrow> state \<Rightarrow> int \<times> state" where
  "sys_accept lfd ar st =
     (if lfd \<notin> open_fds st then (-1, st\<lparr>errno := EBADF\<rparr>)
      else case ar of
             Accepted s \<Rightarrow> (s, st\<lparr>open_fds := insert s (open_fds st)\<rparr>)
           | Accept_failed e \<Rightarrow> (-1, st\<lparr>errno := e\<rparr>))"

definition close_connection :: "nat \<Rightarrow> timer_t \<Rightarrow> state \<Rightarrow> state" where
  "close_connection i timer st =
     (let st1 = snd (disarm_timer timer st);
          st2 = snd (sys_close (fd (pfds st1 ! i)) st1)
      in st2\<lparr>pfds := (pfds st2)[i := (pfds st2 ! i)\<lparr>fd := -1\<rparr>]\<rparr>)"

text \<open>The search for a spare slot, from index \<open>i\<close>, for the accepted descriptor \<open>s\<close>.\<close>

function find_slot :: "nat \<Rightarrow> nat \<Rightarrow> int \<Rightarrow> state \<Rightarrow> int \<times> state" where
  "find_slot mc i s st =
     (if i < mc then
        (if fd (pfds st ! i) < 0 then
           (let st1 = st\<lparr>pfds := (pfds st)[i := (pfds st ! i)\<lparr>fd := s, events := POLLIN\<rparr>]\<rparr>
            in case arm_timer (timers st1 ! i) st1 of
                 (r, st2) \<Rightarrow>
                   if r \<noteq> 0 then (1, close_connection i (timers st2 ! i) st2)
                   else (0, report (Client_connected i) st2))
         else find_slot mc (Suc i) s st)
      else (1, snd (sys_close s (report Too_many_connections st))))"
  by pat_completeness auto
termination
  by (relation "measure (\<lambda>(mc, i, s, st). mc - i)") auto

definition accept_connection :: "nat \<Rightarrow> accept_result \<Rightarrow> state \<Rightarrow> int \<times> state" where
  "accept_connection mc ar st =
     (case sys_accept (fd (pfds st ! 0)) ar st of
        (s, st1) \<Rightarrow>
          if s < 0 then (1, perror ''Failed to accept connection request'' st1)
          else find_slot mc 1 s st1)"

text \<open>The client slots (indices from 1) that are occupied.\<close>

definition occupied_clients :: "state \<Rightarrow> nat list" where
  "occupied_clients st = filter (\<lambda>i. 0 \<le> fd (pfds st ! i)) [1..<length (pfds st)]"

text \<open>The results of the calls that set the listening socket up, chosen by the
  environment. The backlog handed to \<open>listen\<close> has no effect on the modelled state.\<close>

record listen_env =
  socket_res :: int
  setsockopt_res :: int
  getfl_res :: int
  setfl_res :: int
  bind_res :: int
  listen_res :: int

definition initialise_listening_socket :: "listen_env \<Rightarrow> state \<Rightarrow> int \<times> state" where
  "initialise_listening_socket e st =
     (let s = socket_res e in
      if s < 0 then (1, perror ''Failed to create socket'' st)
      else
        let st1 = st\<lparr>open_fds := insert s (open_fds st)\<rparr> in
        if setsockopt_res e \<noteq> 0
          then (1, snd (sys_close s (perror ''Failed to set socket for reuse'' st1)))
        else if getfl_res e = -1
          then (1, snd (sys_close s (perror ''Failed to get socket flags'' st1)))
        else if setfl_res e \<noteq> 0
          then (1, snd (sys_close s (perror ''Failed to set socket to nonblocking mode'' st1)))
        else if bind_res e \<noteq> 0
          then (1, snd (sys_close s (perror ''Failed to bind socket'' st1)))
        else if listen_res e \<noteq> 0
          then (1, snd (sys_close s
                         (perror ''Failed to set socket to a listening state'' st1)))
        else (0, st1\<lparr>pfds := (pfds st1)[0 := (pfds st1 ! 0)\<lparr>fd := s, events := POLLIN\<rparr>]\<rparr>))"

section \<open>Start-up and shutdown\<close>

text \<open>\<open>initialise_signal_handler (a, b) signal\<close>: \<open>a\<close> and \<open>b\<close> are the results of
  \<open>sigemptyset\<close> and \<open>sigaction\<close>. Which handler is installed is not recorded:
  \<open>deliver\<close> describes the process after both installations.\<close>

definition initialise_signal_handler :: "int \<times> int \<Rightarrow> int \<Rightarrow> state \<Rightarrow> int \<times> state" where
  "initialise_signal_handler res signal st =
     (if fst res \<noteq> 0 then (1, perror ''Failed to initialise the signal mask'' st)
      else if snd res \<noteq> 0 then (1, perror [] (report (Failed_signal_action signal) st))
      else (0, st))"

function clear_slots :: "nat \<Rightarrow> nat \<Rightarrow> state \<Rightarrow> state" where
  "clear_slots i n st =
     (if i < n
      then clear_slots (Suc i) n (st\<lparr>pfds := (pfds st)[i := (pfds st ! i)\<lparr>fd := -1\<rparr>]\<rparr>)
      else st)"
  by pat_completeness auto
termination
  by (relation "measure (\<lambda>(i, n, st). n - i)") auto

record init_env =
  timeout_sig_res :: "int \<times> int"
  interrupt_sig_res :: "int \<times> int"
  timer_ok :: "nat \<Rightarrow> bool"
  listener :: listen_env

definition initialise_server :: "nat \<Rightarrow> init_env \<Rightarrow> state \<Rightarrow> int \<times> state" where
  "initialise_server n e st =
     (let st1 = report (Progress ''Enabling timeout handler'') (clear_slots 0 n st) in
      case initialise_signal_handler (timeout_sig_res e) TIMEOUT_SIGNAL st1 of
        (r1, st2) \<Rightarrow>
          if r1 \<noteq> 0 then (1, st2)
          else
            (case initialise_signal_handler (interrupt_sig_res e) SIGINT
                    (report (Progress ''Enabling interrupt handler'') st2) of
               (r2, st3) \<Rightarrow>
                 if r2 \<noteq> 0 then (1, st3)
                 else
                   (case create_timers n (timer_ok e)
                           (report (Progress ''Creating timeout timers'') st3) of
                      (r3, st4) \<Rightarrow>
                        if r3 \<noteq> 0 then (1, st4)
                        else
                          (case initialise_listening_socket (listener e)
                                  (report (Progress ''Initialising listening socket'') st4) of
                             (r4, st5) \<Rightarrow>
                               if r4 \<noteq> 0 then (1, snd (destroy_timers n st5))
                               else (0, report (Progress ''Server initialised'') st5)))))"

function close_all :: "nat \<Rightarrow> nat \<Rightarrow> state \<Rightarrow> state" where
  "close_all mc i st =
     (if i < mc then close_all mc (Suc i) (close_connection i (timers st ! i) st) else st)"
  by pat_completeness auto
termination
  by (relation "measure (\<lambda>(mc, i, st). mc - i)") auto

definition shutdown_server :: "nat \<Rightarrow> nat \<Rightarrow> state \<Rightarrow> int \<times> state" where
  "shutdown_server mc n st =
     (let st1 = close_all mc 0 (report (Progress ''Closing all client connections'') st);
          st2 = snd (destroy_timers mc (report (Progress ''Destroying timeout timers'') st1))
      in (0, report (Progress ''Server shut down'') st2))"

section \<open>Event loop\<close>

subsection \<open>Waiting for readiness\<close>

text \<open>
  What the environment answers to \<open>poll\<close>: the pending events of every descriptor, or
  \<open>errno\<close>. The kernel writes \<open>revents\<close> of the first \<open>n\<close> entries, zero for an entry
  whose \<open>fd\<close> is negative, and returns the number of entries with a non-zero
  \<open>revents\<close>.
\<close>

datatype poll_result = Poll_ready "int \<Rightarrow> int" | Poll_failed int

definition sys_poll :: "nat \<Rightarrow> poll_result \<Rightarrow> state \<Rightarrow> int \<times> state" where
  "sys_poll n pr st =
     (case pr of
        Poll_failed e \<Rightarrow> (-1, st\<lparr>errno := e\<rparr>)
      | Poll_ready r \<Rightarrow>
          (let ps = map (\<lambda>p. p\<lparr>revents := (if fd p < 0 then 0 else r (fd p))\<rparr>)
                        (take n (pfds st))
           in (int (length (filter (\<lambda>p. revents p \<noteq> 0) ps)),
               st\<lparr>pfds := ps @ drop n (pfds st)\<rparr>)))"

text \<open>What the environment answers to \<open>recv\<close>: the bytes pending on the connection
  (none when the peer has closed), or \<open>errno\<close>. The kernel copies at most \<open>len\<close> of
  them to the front of the buffer. A buffer cell is \<open>None\<close> while it is indeterminate.\<close>

datatype recv_result = Received string | Recv_failed int

definition sys_recv ::
  "int \<Rightarrow> char option list \<Rightarrow> nat \<Rightarrow> recv_result \<Rightarrow> state \<Rightarrow> (int \<times> char option list) \<times> state"
where
  "sys_recv s buffer len rr st =
     (if s \<notin> open_fds st then ((-1, buffer), st\<lparr>errno := EBADF\<rparr>)
      else case rr of
             Received d \<Rightarrow>
               (let got = take len d
                in ((int (length got), map Some got @ drop (length got) buffer), st))
           | Recv_failed e \<Rightarrow> ((-1, buffer), st\<lparr>errno := e\<rparr>))"

text \<open>A store to \<open>buffer[k]\<close>, and the read of the string that starts at \<open>buffer\<close>
  (as \<open>printf("%s")\<close> does); \<open>None\<close> when the access leaves the array or reads an
  indeterminate cell.\<close>

definition store_char :: "char option list \<Rightarrow> nat \<Rightarrow> char \<Rightarrow> char option list option" where
  "store_char buffer k c = (if k < length buffer then Some (buffer[k := Some c]) else None)"

fun c_string :: "char option list \<Rightarrow> string option" where
  "c_string [] = None"
| "c_string (None # cs) = None"
| "c_string (Some c # cs) =
     (if c = NUL then Some []
      else case c_string cs of None \<Rightarrow> None | Some s \<Rightarrow> Some (c # s))"

subsection \<open>One slot of the readiness scan\<close>

text \<open>What the environment does while slot \<open>i\<close> is handled: its answer to the
  \<open>accept\<close> or \<open>recv\<close> the slot may make, and the signals it delivers meanwhile.\<close>

record slot_env =
  accept_res :: accept_result
  recv_res :: recv_result
  signals :: "int list"

text \<open>How the body of the \<open>for\<close> loop ends: at its end or a \<open>continue\<close>, with the
  count of events left; at \<open>return\<close>; or in an access outside the receive buffer.\<close>

datatype body = Next int state | Return int state | Out_of_bounds

text \<open>The state in which the body ends, when it ends inside the buffer.\<close>

fun body_state :: "body \<Rightarrow> state option" where
  "body_state (Next active st) = Some st"
| "body_state (Return r st) = Some st"
| "body_state Out_of_bounds = None"

text \<open>Lines 410 to 434: the read from client \<open>i\<close>, after its timer was rearmed.\<close>

definition read_client :: "nat \<Rightarrow> recv_result \<Rightarrow> int \<Rightarrow> state \<Rightarrow> body" where
  "read_client i rr active st =
     (case sys_recv (fd (pfds st ! i)) (replicate BUFFER_SIZE None) (BUFFER_SIZE - 1) rr st of
        ((ret, buffer), st1) \<Rightarrow>
          if ret = 0 then
            Next active (close_connection i (timers st ! i) (report (Client_disconnected i) st1))
          else if ret < 0 then
            (if errno st1 = EINTR then Next active st1
             else Return 1 (perror [] (report (Failed_read i) st1)))
          else
            (case store_char buffer (nat ret) NUL of
               None \<Rightarrow> Out_of_bounds
             | Some buffer1 \<Rightarrow>
                 (case c_string buffer1 of
                    None \<Rightarrow> Out_of_bounds
                  | Some text \<Rightarrow> Next active (st1\<lparr>stdout := stdout st1 @ [(i, text)]\<rparr>))))"

definition service_slot :: "nat \<Rightarrow> nat \<Rightarrow> slot_env \<Rightarrow> int \<Rightarrow> state \<Rightarrow> body" where
  "service_slot mc i e active st =
     (let timer = timers st ! i in
      if fd (pfds st ! i) < 0 \<or> revents (pfds st ! i) = 0 then Next active st
      else
        let active1 = active - 1;
            st1 = st\<lparr>trace := trace st @ [Service i]\<rparr>
        in if and (revents (pfds st1 ! i)) POLLIN = 0
             then Next active1 (close_connection i timer st1)
           else if i = 0
             then Next active1 (snd (accept_connection mc (accept_res e) st1))
           else
             (case arm_timer timer st1 of
                (r, st2) \<Rightarrow>
                  if r \<noteq> 0 then Next active1 (close_connection i timer st2)
                  else read_client i (recv_res e) active1 st2))"

function process_events :: "nat \<Rightarrow> nat \<Rightarrow> int \<Rightarrow> (nat \<Rightarrow> slot_env) \<Rightarrow> state \<Rightarrow> body" where
  "process_events mc i active env st =
     (if i < mc \<and> 0 < active \<and> interrupt_triggered st = 0 then
        (case service_slot mc i (env i) active st of
           Next active1 st1 \<Rightarrow>
             process_events mc (Suc i) active1 env (deliver_all (signals (env i)) st1)
         | Return r st1 \<Rightarrow> Return r st1
         | Out_of_bounds \<Rightarrow> Out_of_bounds)
      else Next active st)"
  by pat_completeness auto
termination
  by (relation "measure (\<lambda>(mc, i, active, env, st). mc - i)") auto

subsection \<open>The timeout check\<close>

function check_timeouts :: "nat \<Rightarrow> nat \<Rightarrow> state \<Rightarrow> unit run" where
  "check_timeouts i n st =
     (if i < n then
        (if 0 \<le> fd (pfds st ! i) then
           (case timer_expired (timers st ! i) st of
              Exit c st1 \<Rightarrow> Exit c st1
            | Ret expired st1 \<Rightarrow>
                if expired
                then check_timeouts (Suc i) n
                       (close_connection i (timers st ! i) (report (Client_timed_out i) st1))
                else check_timeouts (Suc i) n st1)
         else check_timeouts (Suc i) n st)
      else Ret () st)"
  by pat_completeness auto
termination
  by (relation "measure (\<lambda>(i, n, st). n - i)") auto

text \<open>Lines 329 to 347.\<close>

definition timeout_check :: "nat \<Rightarrow> state \<Rightarrow> unit run" where
  "timeout_check n st =
     (if timeout_triggered st \<noteq> 0 then check_timeouts 1 n (st\<lparr>timeout_triggered := 0\<rparr>)
      else Ret () st)"

text \<open>What the check does, for stating its effect: \<open>remaining_zero st t\<close> is what
  \<open>timer_gettime\<close> shows for an existing timer with no time left, and \<open>evicts n st j\<close>
  says that the check over \<open>n\<close> slots, run in \<open>st\<close>, finds client \<open>j\<close> occupied with
  such a timer.\<close>

definition remaining_zero :: "state \<Rightarrow> timer_t \<Rightarrow> bool" where
  "remaining_zero st t =
     (case kernel_timer st t of
        None \<Rightarrow> False
      | Some its \<Rightarrow> tv_sec (it_value its) = 0 \<and> tv_nsec (it_value its) = 0)"

definition evicts :: "nat \<Rightarrow> state \<Rightarrow> nat \<Rightarrow> bool" where
  "evicts n st j \<longleftrightarrow>
     1 \<le> j \<and> j < n \<and> 0 \<le> fd (pfds st ! j) \<and> remaining_zero st (timers st ! j)"

text \<open>
  What start-up establishes for the first \<open>n\<close> slots and the loop relies on: both
  arrays have the slots, every slot has an existing timer of its own, and no
  descriptor sits in two slots.
\<close>

definition table_ok :: "nat \<Rightarrow> state \<Rightarrow> bool" where
  "table_ok n st \<longleftrightarrow>
     n \<le> length (pfds st) \<and> n \<le> length (timers st) \<and>
     (\<forall>j<n. kernel_timer st (timers st ! j) \<noteq> None) \<and>
     (\<forall>j<n. \<forall>k<n. j \<noteq> k \<longrightarrow> timers st ! j \<noteq> timers st ! k) \<and>
     (\<forall>j<n. \<forall>k<n. j \<noteq> k \<and> 0 \<le> fd (pfds st ! j) \<longrightarrow> fd (pfds st ! j) \<noteq> fd (pfds st ! k))"

subsection \<open>The loop\<close>

text \<open>
  One pass of \<open>while (1)\<close> calls \<open>poll\<close> once. The environment of a pass says how
  much time goes by between the end of the timeout check and the entry to \<open>poll\<close>
  (\<open>before_poll\<close>, in nanoseconds; a timer that runs out then has its signal handled
  before the call), whether the call ever returns (\<open>returns\<close>: with the infinite
  timeout the program passes, it does not when no descriptor becomes ready and no
  signal arrives), how long it blocks when it does (\<open>waited\<close>), which signals arrive
  before it returns, what it returns, and what happens at each slot of the scan that
  follows. \<open>Blocked\<close> is the loop inside a \<open>poll\<close> that never returns; \<open>Running\<close> is
  the loop about to call \<open>poll\<close> when the list of passes is used up.
\<close>

record pass_env =
  before_poll :: nat
  returns :: bool
  waited :: nat
  poll_signals :: "int list"
  poll_res :: poll_result
  slot_envs :: "nat \<Rightarrow> slot_env"

datatype outcome =
    Returned int state
  | Exited int state
  | Running state
  | Blocked state
  | Undefined_behaviour

text \<open>The state in which \<open>poll\<close> is entered, and the call when it returns.\<close>

definition enter_poll :: "pass_env \<Rightarrow> state \<Rightarrow> state" where
  "enter_poll e st = (elapse (before_poll e) st)\<lparr>trace := trace st @ [Wait]\<rparr>"

definition wait_for_events :: "nat \<Rightarrow> pass_env \<Rightarrow> state \<Rightarrow> int \<times> state" where
  "wait_for_events n e st =
     sys_poll n (poll_res e)
       (deliver_all (poll_signals e) (elapse (waited e) (enter_poll e st)))"

fun event_loop :: "nat \<Rightarrow> nat \<Rightarrow> pass_env list \<Rightarrow> state \<Rightarrow> outcome" where
  "event_loop mc n envs st =
     (if interrupt_triggered st \<noteq> 0 then Returned 0 st
      else
        (case timeout_check n st of
           Exit c st1 \<Rightarrow> Exited c st1
         | Ret _ st1 \<Rightarrow>
             (case envs of
                [] \<Rightarrow> Running st1
              | e # es \<Rightarrow>
                  if \<not> returns e then Blocked (enter_poll e st1)
                  else
                    (case wait_for_events n e st1 of
                       (active, st2) \<Rightarrow>
                         if active \<le> 0 then
                           (if errno st2 = EINTR then event_loop mc n es st2
                            else Returned 0 (perror ''Failed to poll sockets'' st2))
                         else
                           (case process_events mc 0 active (slot_envs e) st2 of
                              Next _ st3 \<Rightarrow> event_loop mc n es st3
                            | Return r st3 \<Rightarrow> Returned r st3
                            | Out_of_bounds \<Rightarrow> Undefined_behaviour)))))"

section \<open>The program\<close>

text \<open>\<open>main\<close> from the process state \<open>st\<close> it starts in, whose two arrays hold
  \<open>MAX_CONNECTIONS\<close> indeterminate entries each.\<close>

definition main :: "init_env \<Rightarrow> pass_env list \<Rightarrow> state \<Rightarrow> outcome" where
  "main ie envs st =
     (case initialise_server MAX_CONNECTIONS ie st of
        (r, st1) \<Rightarrow>
          if r \<noteq> 0 then Returned EXIT_FAILURE st1
          else
            (case event_loop MAX_CONNECTIONS MAX_CONNECTIONS envs st1 of
               Returned r st2 \<Rightarrow>
                 Returned (if r \<noteq> 0 then EXIT_FAILURE else EXIT_SUCCESS)
                          (snd (shutdown_server MAX_CONNECTIONS MAX_CONNECTIONS st2))
             | other \<Rightarrow> other))"

text \<open>The state in which the loop was left, or is blocked.\<close>

fun final_state :: "outcome \<Rightarrow> state option" where
  "final_state (Returned r st) = Some st"
| "final_state (Exited c st) = Some st"
| "final_state (Running st) = Some st"
| "final_state (Blocked st) = Some st"
| "final_state Undefined_behaviour = None"

text \<open>The status with which the process ends, if it ends.\<close>

fun exit_status :: "outcome \<Rightarrow> int option" where
  "exit_status (Returned r st) = Some r"
| "exit_status (Exited c st) = Some c"
| "exit_status (Running st) = None"
| "exit_status (Blocked st) = None"
| "exit_status Undefined_behaviour = None"

section \<open>Sample states\<close>

text \<open>A table of three slots: the listener on descriptor 3, client 1 on descriptor 4
  with five seconds left on its timer, slot 2 free.\<close>

definition sample :: state where
  "sample =
     \<lparr>pfds = [\<lparr>fd = 3, events = 1, revents = 0\<rparr>,
              \<lparr>fd = 4, events = 1, revents = 0\<rparr>,
              \<lparr>fd = -1, events = 0, revents = 0\<rparr>],
      timers = [0, 1, 2],
      ktimers = [Some disarmed,
                 Some \<lparr>it_interval = zero_timespec, it_value = \<lparr>tv_sec = 5, tv_nsec = 0\<rparr>\<rparr>,
                 Some disarmed],
      open_fds = {0, 1, 2, 3, 4},
      errno = 0,
      timeout_triggered = 0,
      interrupt_triggered = 0,
      stderr = [],
      stdout = [],
      trace = []\<rparr>"

text \<open>The same table with both client slots taken: client 2 on descriptor 5 with a
  full deadline.\<close>

definition crowded :: state where
  "crowded =
     sample\<lparr>pfds := [\<lparr>fd = 3, events = 1, revents = 0\<rparr>,
                     \<lparr>fd = 4, events = 1, revents = 0\<rparr>,
                     \<lparr>fd = 5, events = 1, revents = 0\<rparr>],
            ktimers := [Some disarmed,
                        Some \<lparr>it_interval = zero_timespec,
                              it_value = \<lparr>tv_sec = 5, tv_nsec = 0\<rparr>\<rparr>,
                        Some full_deadline],
            open_fds := {0, 1, 2, 3, 4, 5}\<rparr>"

text \<open>The first table at the moment the timer of client 1 has run out and the
  signal has been handled.\<close>

definition overdue :: state where
  "overdue = sample\<lparr>ktimers := [Some disarmed, Some disarmed, Some disarmed],
                    timeout_triggered := 1\<rparr>"

text \<open>A slot at which the environment does nothing.\<close>

definition quiet_slot :: slot_env where
  "quiet_slot = \<lparr>accept_res = Accept_failed EAGAIN, recv_res = Recv_failed EAGAIN,
                 signals = []\<rparr>"



text \<open>A pass in which \<open>poll\<close> returns at once with a connection request pending
  on the listener, which \<open>accept\<close> answers with descriptor 6.\<close>

definition accept_pass :: pass_env where
  "accept_pass =
     \<lparr>before_poll = 0, returns = True, waited = 0, poll_signals = [],
      poll_res = Poll_ready (\<lambda>s. if s = 3 then POLLIN else 0),
      slot_envs = (\<lambda>i. \<lparr>accept_res = Accepted 6, recv_res = Recv_failed EAGAIN,
                         signals = []\<rparr>)\<rparr>"

text \<open>A pass in which \<open>poll\<close> returns at once with input pending on descriptors 4
  and 5, and \<open>SIGINT\<close> arrives while the slot of client 1 is handled.\<close>

definition sigint_pass :: pass_env where
  "sigint_pass =
     \<lparr>before_poll = 0, returns = True, waited = 0, poll_signals = [],
      poll_res = Poll_ready (\<lambda>s. if s = 4 \<or> s = 5 then POLLIN else 0),
      slot_envs = (\<lambda>i. if i = 1
                        then \<lparr>accept_res = Accept_failed EAGAIN, recv_res = Received ''a'',
                              signals = [SIGINT]\<rparr>
                        else \<lparr>accept_res = Accept_failed EAGAIN, recv_res = Received ''b'',
                              signals = []\<rparr>)\<rparr>"

text \<open>The second table after the \<open>poll\<close> of \<open>sigint_pass\<close>, and after client 1 has
  then been handled.\<close>

definition polled :: state where
  "polled = crowded\<lparr>pfds := [\<lparr>fd = 3, events = 1, revents = 0\<rparr>,
                             \<lparr>fd = 4, events = 1, revents = 1\<rparr>,
                             \<lparr>fd = 5, events = 1, revents = 1\<rparr>],
                    trace := [Wait]\<rparr>"

definition served :: state where
  "served = polled\<lparr>ktimers := [Some disarmed, Some full_deadline, Some full_deadline],
                   stdout := [(1, ''a'')],
                   trace := [Wait, Service 1]\<rparr>"

text \<open>A process at the start of \<open>main\<close>, a start-up in which every call succeeds,
  a pass in which \<open>poll\<close> fails for lack of memory, and a pass in which \<open>poll\<close> is
  interrupted by \<open>SIGINT\<close>.\<close>

definition boot :: state where
  "boot =
     \<lparr>pfds = replicate MAX_CONNECTIONS \<lparr>fd = 0, events = 0, revents = 0\<rparr>,
      timers = replicate MAX_CONNECTIONS 0,
      ktimers = [],
      open_fds = {0, 1, 2},
      errno = 0,
      timeout_triggered = 0,
      interrupt_triggered = 0,
      stderr = [],
      stdout = [],
      trace = []\<rparr>"

definition good_start :: init_env where
  "good_start =
     \<lparr>timeout_sig_res = (0, 0), interrupt_sig_res = (0, 0), timer_ok = (\<lambda>i. True),
      listener = \<lparr>socket_res = 3, setsockopt_res = 0, getfl_res = 2, setfl_res = 0,
                  bind_res = 0, listen_res = 0\<rparr>\<rparr>"

text \<open>The process when that start-up has returned.\<close>

definition booted :: state where
  "booted =
     boot\<lparr>pfds := \<lparr>fd = 3, events = 1, revents = 0\<rparr> #
                    replicate 9 \<lparr>fd = -1, events = 0, revents = 0\<rparr>,
          timers := [0, 1, 2, 3, 4, 5, 6, 7, 8, 9],
          ktimers := replicate 10 (Some disarmed),
          open_fds := {3, 0, 1, 2},
          stderr := [Progress ''Enabling timeout handler'',
                     Progress ''Enabling interrupt handler'',
                     Progress ''Creating timeout timers'',
                     Progress ''Initialising listening socket'',
                     Progress ''Server initialised'']\<rparr>"

definition broken_pass :: pass_env where
  "broken_pass = \<lparr>before_poll = 0, returns = True, waited = 0, poll_signals = [],
                  poll_res = Poll_failed ENOMEM, slot_envs = (\<lambda>i. quiet_slot)\<rparr>"

definition ctrl_c_pass :: pass_env where
  "ctrl_c_pass = \<lparr>before_poll = 0, returns = True, waited = 0, poll_signals = [SIGINT],
                  poll_res = Poll_failed EINTR, slot_envs = (\<lambda>i. quiet_slot)\<rparr>"

text \<open>The first table with one nanosecond left on the timer of client 1. A pass in
  which that nanosecond goes by between the end of the timeout check and the call of
  \<open>poll\<close>, nothing being ready on any descriptor and no further signal arriving, so
  that the call does not return; and a pass in which the same nanosecond goes by
  inside \<open>poll\<close>, which the signal of the timer interrupts.\<close>

definition lapsing :: state where
  "lapsing =
     sample\<lparr>ktimers := [Some disarmed,
                        Some \<lparr>it_interval = zero_timespec,
                              it_value = \<lparr>tv_sec = 0, tv_nsec = 1\<rparr>\<rparr>,
                        Some disarmed]\<rparr>"

definition late_signal_pass :: pass_env where
  "late_signal_pass =
     \<lparr>before_poll = 1, returns = False, waited = 0, poll_signals = [],
      poll_res = Poll_ready (\<lambda>s. 0), slot_envs = (\<lambda>i. quiet_slot)\<rparr>"

definition wakeup_pass :: pass_env where
  "wakeup_pass =
     \<lparr>before_poll = 0, returns = True, waited = 1, poll_signals = [],
      poll_res = Poll_failed EINTR, slot_envs = (\<lambda>i. quiet_slot)\<rparr>"

text \<open>The process inside the \<open>poll\<close> of the first of the two passes, and the process
  when the loop is about to call \<open>poll\<close> again after the second.\<close>

definition stale :: state where
  "stale = overdue\<lparr>trace := [Wait]\<rparr>"

definition timed_out :: state where
  "timed_out =
     stale\<lparr>pfds := [\<lparr>fd = 3, events = 1, revents = 0\<rparr>,
                    \<lparr>fd = -1, events = 1, revents = 0\<rparr>,
                    \<lparr>fd = -1, events = 0, revents = 0\<rparr>],
           open_fds := {0, 1, 2, 3},
           errno := EINTR,
           timeout_triggered := 0,
           stderr := [Client_timed_out 1]\<rparr>"

text \<open>A pass in which \<open>poll\<close> returns at once with a connection request pending on
  the listener and input pending on descriptors 4 and 5; the second table when that
  \<open>poll\<close> has returned, and when the scan after it is over.\<close>

definition busy_pass :: pass_env where
  "busy_pass =
     \<lparr>before_poll = 0, returns = True, waited = 0, poll_signals = [],
      poll_res = Poll_ready (\<lambda>s. if s = 3 \<or> s = 4 \<or> s = 5 then POLLIN else 0),
      slot_envs = (\<lambda>i. \<lparr>accept_res = Accepted 6,
                         recv_res = Received (if i = 1 then ''a'' else ''b''),
                         signals = []\<rparr>)\<rparr>"

definition busy_polled :: state where
  "busy_polled = crowded\<lparr>pfds := [\<lparr>fd = 3, events = 1, revents = 1\<rparr>,
                                  \<lparr>fd = 4, events = 1, revents = 1\<rparr>,
                                  \<lparr>fd = 5, events = 1, revents = 1\<rparr>],
                         trace := [Wait]\<rparr>"

definition busy_done :: state where
  "busy_done =
     busy_polled\<lparr>ktimers := [Some disarmed, Some full_deadline, Some full_deadline],
                 stderr := [Too_many_connections],
                 stdout := [(1, ''a''), (2, ''b'')],
                 trace := [Wait, Service 0, Service 1, Service 2]\<rparr>"

text \<open>The first table when the check has closed client 1, whose timer had run
  out; when the \<open>poll\<close> of \<open>accept_pass\<close> has then returned; and when the scan after
  it is over, the new connection in the slot that the check made free.\<close>

definition swept :: state where
  "swept =
     overdue\<lparr>pfds := [\<lparr>fd = 3, events = 1, revents = 0\<rparr>,
                      \<lparr>fd = -1, events = 1, revents = 0\<rparr>,
                      \<lparr>fd = -1, events = 0, revents = 0\<rparr>],
             open_fds := {0, 1, 2, 3},
             timeout_triggered := 0,
             stderr := [Client_timed_out 1]\<rparr>"

definition swept_polled :: state where
  "swept_polled =
     swept\<lparr>pfds := [\<lparr>fd = 3, events = 1, revents = 1\<rparr>,
                    \<lparr>fd = -1, events = 1, revents = 0\<rparr>,
                    \<lparr>fd = -1, events = 0, revents = 0\<rparr>],
           trace := [Wait]\<rparr>"

definition admitted :: state where
  "admitted =
     swept_polled\<lparr>pfds := [\<lparr>fd = 3, events = 1, revents = 1\<rparr>,
                           \<lparr>fd = 6, events = 1, revents = 0\<rparr>,
                           \<lparr>fd = -1, events = 0, revents = 0\<rparr>],
                  ktimers := [Some disarmed, Some full_deadline, Some disarmed],
                  open_fds := {6, 0, 1, 2, 3},
                  stderr := [Client_timed_out 1, Client_connected 1],
                  trace := [Wait, Service 0]\<rparr>"

section \<open>Properties of the timer set\<close>

declare destroy_timers_from.simps [simp del] create_timers_from.simps [simp del]

lemma kernel_timer_update:
  "kernel_timer (st\<lparr>ktimers := (ktimers st)[t := v]\<rparr>) u =
     (if u = t \<and> t < length (ktimers st) then v else kernel_timer st u)"
  by (simp add: kernel_timer_def nth_list_update)

lemma kernel_timer_length: "kernel_timer st t = Some its \<Longrightarrow> t < length (ktimers st)"
  by (simp add: kernel_timer_def split: if_splits)

lemma disarm_timer_live:
  "kernel_timer st t = Some its \<Longrightarrow>
   disarm_timer t st = (0, st\<lparr>ktimers := (ktimers st)[t := Some disarmed]\<rparr>)"
  by (simp add: disarm_timer_def sys_timer_settime_def)

lemma arm_timer_live:
  "kernel_timer st t = Some its \<Longrightarrow>
   arm_timer t st = (0, st\<lparr>ktimers := (ktimers st)[t := Some full_deadline]\<rparr>)"
  by (simp add: arm_timer_def sys_timer_settime_def)

lemma timer_expired_live:
  "kernel_timer st t = Some its \<Longrightarrow>
   timer_expired t st = Ret (tv_sec (it_value its) = 0 \<and> tv_nsec (it_value its) = 0) st"
  by (simp add: timer_expired_def sys_timer_gettime_def)

text \<open>
  C10. Disarming is idempotent: on a timer that exists, \<open>disarm_timer\<close> succeeds and
  leaves it with no pending deadline, and disarming it a second time succeeds again
  and changes nothing at all, so twice is the same as once.
\<close>

theorem disarm_timer_idempotent:
  assumes "kernel_timer st t \<noteq> None"
  shows "fst (disarm_timer t st) = 0 \<and>
         kernel_timer (snd (disarm_timer t st)) t = Some disarmed \<and>
         disarm_timer t (snd (disarm_timer t st)) = (0, snd (disarm_timer t st))"
proof -
  from assms obtain its where its: "kernel_timer st t = Some its" by auto
  then have len: "t < length (ktimers st)" by (rule kernel_timer_length)
  let ?st = "st\<lparr>ktimers := (ktimers st)[t := Some disarmed]\<rparr>"
  have once: "disarm_timer t st = (0, ?st)" using its by (rule disarm_timer_live)
  have k: "kernel_timer ?st t = Some disarmed" using len by (simp add: kernel_timer_update)
  have twice: "disarm_timer t ?st = (0, ?st)"
    using disarm_timer_live [OF k] by simp
  show ?thesis using once k twice by simp
qed

theorem disarm_timer_idempotent_witness:
  "kernel_timer sample 1 \<noteq> None \<and>
   fst (disarm_timer 1 sample) = 0 \<and>
   kernel_timer (snd (disarm_timer 1 sample)) 1 = Some disarmed \<and>
   disarm_timer 1 (snd (disarm_timer 1 sample)) = (0, snd (disarm_timer 1 sample))"
proof -
  have h: "kernel_timer sample 1 \<noteq> None" by (simp add: kernel_timer_def sample_def)
  show ?thesis using h disarm_timer_idempotent [OF h] by simp
qed

lemma range_insert: "i < n \<Longrightarrow> {i..<n} = insert i {Suc i..<n}"
  by auto

lemma destroy_timers_from_live:
  "\<lbrakk>\<forall>j. i \<le> j \<and> j < n \<longrightarrow> kernel_timer st (timers st ! j) \<noteq> None;
    \<forall>j k. i \<le> j \<and> j < k \<and> k < n \<longrightarrow> timers st ! j \<noteq> timers st ! k\<rbrakk> \<Longrightarrow>
   \<exists>st'. destroy_timers_from i n st = (0, st') \<and>
      pfds st' = pfds st \<and> timers st' = timers st \<and> open_fds st' = open_fds st \<and>
      stderr st' = stderr st \<and> length (ktimers st') = length (ktimers st) \<and>
      (\<forall>t. kernel_timer st' t =
         (if t \<in> (!) (timers st) ` {i..<n} then None else kernel_timer st t))"
proof (induction i n st rule: destroy_timers_from.induct)
  case (1 i n st)
  show ?case
  proof (cases "i < n")
    case False
    then show ?thesis by (subst destroy_timers_from.simps) auto
  next
    case True
    let ?t = "timers st ! i"
    from True "1.prems"(1) obtain its where its: "kernel_timer st ?t = Some its" by auto
    let ?st1 = "st\<lparr>ktimers := (ktimers st)[?t := None]\<rparr>"
    have del: "sys_timer_delete ?t st = (0, ?st1)"
      using its by (simp add: sys_timer_delete_def)
    have len: "?t < length (ktimers st)" using its by (rule kernel_timer_length)
    have p1: "\<forall>j. Suc i \<le> j \<and> j < n \<longrightarrow> kernel_timer ?st1 (timers ?st1 ! j) \<noteq> None"
    proof (intro allI impI)
      fix j assume j: "Suc i \<le> j \<and> j < n"
      then have "timers st ! i \<noteq> timers st ! j" using "1.prems"(2) True by auto
      moreover have "kernel_timer st (timers st ! j) \<noteq> None" using "1.prems"(1) j by auto
      ultimately show "kernel_timer ?st1 (timers ?st1 ! j) \<noteq> None"
        by (simp add: kernel_timer_update)
    qed
    have p2: "\<forall>j k. Suc i \<le> j \<and> j < k \<and> k < n \<longrightarrow> timers ?st1 ! j \<noteq> timers ?st1 ! k"
      using "1.prems"(2) by auto
    have nz: "\<not> (0::int) \<noteq> 0" by simp
    from "1.IH" [OF True del [symmetric] nz p1 p2]
    obtain st' where r: "destroy_timers_from (Suc i) n ?st1 = (0, st')"
      and f: "pfds st' = pfds st" "timers st' = timers st" "open_fds st' = open_fds st"
        "stderr st' = stderr st" "length (ktimers st') = length (ktimers st)"
      and k: "\<forall>t. kernel_timer st' t =
         (if t \<in> (!) (timers st) ` {Suc i..<n} then None else kernel_timer ?st1 t)"
      by auto
    have step: "destroy_timers_from i n st = (0, st')"
      using True del r by (subst destroy_timers_from.simps) simp
    have "\<forall>t. kernel_timer st' t =
         (if t \<in> (!) (timers st) ` {i..<n} then None else kernel_timer st t)"
      using k len by (simp add: range_insert [OF True] kernel_timer_update)
    with step f show ?thesis by simp
  qed
qed



lemma create_timers_from_ok:
  "\<lbrakk>n \<le> length (timers st); length (ktimers st) = base + i;
    \<forall>j<i. timers st ! j = base + j;
    \<forall>j. i \<le> j \<and> j < n \<longrightarrow> ok j\<rbrakk> \<Longrightarrow>
   \<exists>st'. create_timers_from i n ok st = (0, st') \<and>
      pfds st' = pfds st \<and> open_fds st' = open_fds st \<and> stderr st' = stderr st \<and>
      length (timers st') = length (timers st) \<and>
      (\<forall>j<n. timers st' ! j = base + j) \<and>
      (\<forall>t. kernel_timer st' t =
         (if base + i \<le> t \<and> t < base + n then Some disarmed else kernel_timer st t))"
proof (induction i n ok st rule: create_timers_from.induct)
  case (1 i n ok st)
  show ?case
  proof (cases "i < n")
    case False
    with "1.prems" show ?thesis
      by (subst create_timers_from.simps) auto
  next
    case True
    let ?st1 = "st\<lparr>timers := (timers st)[i := length (ktimers st)],
                   ktimers := ktimers st @ [Some disarmed]\<rparr>"
    have oki: "ok i" using "1.prems"(4) True by simp
    have cr: "sys_timer_create (ok i) i st = (0, ?st1)"
      using oki by (simp add: sys_timer_create_def disarmed_def)
    have nz: "\<not> (0::int) \<noteq> 0" by simp
    have q1: "n \<le> length (timers ?st1)" using "1.prems"(1) by simp
    have q2: "length (ktimers ?st1) = base + Suc i" using "1.prems"(2) by simp
    have q3: "\<forall>j<Suc i. timers ?st1 ! j = base + j"
      using "1.prems"(1,2,3) True by (auto simp: nth_list_update less_Suc_eq)
    have q4: "\<forall>j. Suc i \<le> j \<and> j < n \<longrightarrow> ok j" using "1.prems"(4) by simp
    from "1.IH" [OF True cr [symmetric] nz q1 q2 q3 q4]
    obtain st' where r: "create_timers_from (Suc i) n ok ?st1 = (0, st')"
      and f: "pfds st' = pfds st" "open_fds st' = open_fds st" "stderr st' = stderr st"
        "length (timers st') = length (timers st)" "\<forall>j<n. timers st' ! j = base + j"
      and k: "\<forall>t. kernel_timer st' t =
         (if base + Suc i \<le> t \<and> t < base + n then Some disarmed else kernel_timer ?st1 t)"
      by auto
    have step: "create_timers_from i n ok st = (0, st')"
      using True cr r by (subst create_timers_from.simps) simp
    have "\<forall>t. kernel_timer st' t =
         (if base + i \<le> t \<and> t < base + n then Some disarmed else kernel_timer st t)"
      using k "1.prems"(2) True by (auto simp: kernel_timer_def nth_append)
    with step f show ?thesis by simp
  qed
qed

lemma create_timers_from_fail:
  "\<lbrakk>n \<le> length (timers st); length (ktimers st) = base + i;
    \<forall>j<i. timers st ! j = base + j;
    \<forall>t. base \<le> t \<and> t < base + i \<longrightarrow> kernel_timer st t \<noteq> None;
    i \<le> f; f < n; \<forall>j. i \<le> j \<and> j < f \<longrightarrow> ok j; \<not> ok f\<rbrakk> \<Longrightarrow>
   \<exists>st'. create_timers_from i n ok st = (1, st') \<and>
      pfds st' = pfds st \<and> open_fds st' = open_fds st \<and>
      stderr st' = stderr st @ [Perror ''Failed to create timer''] \<and>
      (\<forall>t. kernel_timer st' t = (if base \<le> t then None else kernel_timer st t))"
proof (induction i n ok st rule: create_timers_from.induct)
  case (1 i n ok st)
  have lt: "i < n" using "1.prems"(5,6) by simp
  show ?case
  proof (cases "i = f")
    case True
    let ?st1 = "perror ''Failed to create timer'' (st\<lparr>errno := EAGAIN\<rparr>)"
    have cr: "sys_timer_create (ok i) i st = (-1, st\<lparr>errno := EAGAIN\<rparr>)"
      using "1.prems"(8) True by (simp add: sys_timer_create_def)
    have step: "create_timers_from i n ok st = (1, snd (destroy_timers i ?st1))"
      using lt cr by (subst create_timers_from.simps) simp
    have kt: "kernel_timer ?st1 = kernel_timer st"
      by (rule ext) (simp add: kernel_timer_def perror_def)
    have tm: "timers ?st1 = timers st" by (simp add: perror_def)
    have l1: "\<forall>j. 0 \<le> j \<and> j < i \<longrightarrow> kernel_timer ?st1 (timers ?st1 ! j) \<noteq> None"
      using "1.prems"(3,4) by (simp add: kt tm)
    have l2: "\<forall>j k. 0 \<le> j \<and> j < k \<and> k < i \<longrightarrow> timers ?st1 ! j \<noteq> timers ?st1 ! k"
      using "1.prems"(3) by (simp add: tm)
    from destroy_timers_from_live [OF l1 l2]
    obtain st' where d: "destroy_timers_from 0 i ?st1 = (0, st')"
      and f: "pfds st' = pfds ?st1" "open_fds st' = open_fds ?st1" "stderr st' = stderr ?st1"
      and k: "\<forall>t. kernel_timer st' t =
         (if t \<in> (!) (timers ?st1) ` {0..<i} then None else kernel_timer ?st1 t)"
      by auto
    have img: "(!) (timers st) ` {0..<i} = {base..<base + i}"
    proof -
      have "(!) (timers st) ` {0..<i} = (\<lambda>j. base + j) ` {0..<i}"
        using "1.prems"(3) by (intro image_cong) auto
      also have "\<dots> = {base..<base + i}"
        using image_add_atLeastLessThan [of base 0 i] by (simp add: add.commute)
      finally show ?thesis .
    qed
    have beyond: "\<And>t. base + i \<le> t \<Longrightarrow> kernel_timer st t = None"
      using "1.prems"(2) by (simp add: kernel_timer_def)
    have "\<forall>t. kernel_timer st' t = (if base \<le> t then None else kernel_timer st t)"
    proof
      fix t
      show "kernel_timer st' t = (if base \<le> t then None else kernel_timer st t)"
        using k beyond [of t] by (cases "t < base + i") (auto simp: kt tm img)
    qed
    with step d f show ?thesis by (simp add: destroy_timers_def perror_def)
  next
    case False
    then have lt2: "i < f" using "1.prems"(5) by simp
    let ?st1 = "st\<lparr>timers := (timers st)[i := length (ktimers st)],
                   ktimers := ktimers st @ [Some disarmed]\<rparr>"
    have oki: "ok i" using "1.prems"(7) lt2 by simp
    have cr: "sys_timer_create (ok i) i st = (0, ?st1)"
      using oki by (simp add: sys_timer_create_def disarmed_def)
    have nz: "\<not> (0::int) \<noteq> 0" by simp
    have q1: "n \<le> length (timers ?st1)" using "1.prems"(1) by simp
    have q2: "length (ktimers ?st1) = base + Suc i" using "1.prems"(2) by simp
    have q3: "\<forall>j<Suc i. timers ?st1 ! j = base + j"
      using "1.prems"(1,2,3) lt by (auto simp: nth_list_update less_Suc_eq)
    have q4: "\<forall>t. base \<le> t \<and> t < base + Suc i \<longrightarrow> kernel_timer ?st1 t \<noteq> None"
      using "1.prems"(2,4) by (auto simp: kernel_timer_def nth_append)
    have q5: "Suc i \<le> f" using lt2 by simp
    have q7: "\<forall>j. Suc i \<le> j \<and> j < f \<longrightarrow> ok j" using "1.prems"(7) by simp
    from "1.IH" [OF lt cr [symmetric] nz q1 q2 q3 q4 q5 "1.prems"(6) q7 "1.prems"(8)]
    obtain st' where r: "create_timers_from (Suc i) n ok ?st1 = (1, st')"
      and f: "pfds st' = pfds st" "open_fds st' = open_fds st"
        "stderr st' = stderr st @ [Perror ''Failed to create timer'']"
      and k: "\<forall>t. kernel_timer st' t = (if base \<le> t then None else kernel_timer ?st1 t)"
      by auto
    have step: "create_timers_from i n ok st = (1, st')"
      using lt cr r by (subst create_timers_from.simps) simp
    have "\<forall>t. kernel_timer st' t = (if base \<le> t then None else kernel_timer st t)"
      using k "1.prems"(2) by (auto simp: kernel_timer_def nth_append)
    with step f show ?thesis by simp
  qed
qed


text \<open>
  C7. \<open>create_timers n\<close> is all or nothing. If every \<open>timer_create\<close> succeeds it
  returns 0 and the array holds \<open>n\<close> new, disarmed timers, the timers that existed
  before being as they were. If the \<open>i\<close>-th creation is the first to fail it returns
  1 and the kernel's timers are exactly those from before the call: the \<open>i\<close> timers
  created so far have been deleted again.
\<close>

theorem create_timers_all_or_nothing:
  assumes "n \<le> length (timers st)"
  shows "((\<forall>j<n. ok j) \<longrightarrow>
            fst (create_timers n ok st) = 0 \<and>
            (\<forall>j<n. timers (snd (create_timers n ok st)) ! j = length (ktimers st) + j \<and>
                   kernel_timer (snd (create_timers n ok st)) (length (ktimers st) + j) =
                     Some disarmed) \<and>
            (\<forall>t<length (ktimers st).
               kernel_timer (snd (create_timers n ok st)) t = kernel_timer st t)) \<and>
         (\<forall>i<n. (\<forall>j<i. ok j) \<and> \<not> ok i \<longrightarrow>
            fst (create_timers n ok st) = 1 \<and>
            kernel_timer (snd (create_timers n ok st)) = kernel_timer st \<and>
            live_timers (snd (create_timers n ok st)) = live_timers st \<and>
            (\<forall>j<i. length (ktimers st) + j \<notin> live_timers (snd (create_timers n ok st))))"
proof -
  let ?r = "create_timers n ok st"
  let ?base = "length (ktimers st)"
  have ok_case: "fst ?r = 0 \<and>
      (\<forall>j<n. timers (snd ?r) ! j = ?base + j \<and>
             kernel_timer (snd ?r) (?base + j) = Some disarmed) \<and>
      (\<forall>t<?base. kernel_timer (snd ?r) t = kernel_timer st t)"
    if all: "\<forall>j<n. ok j"
  proof -
    have "\<exists>st'. create_timers_from 0 n ok st = (0, st') \<and>
        pfds st' = pfds st \<and> open_fds st' = open_fds st \<and> stderr st' = stderr st \<and>
        length (timers st') = length (timers st) \<and>
        (\<forall>j<n. timers st' ! j = ?base + j) \<and>
        (\<forall>t. kernel_timer st' t =
           (if ?base + 0 \<le> t \<and> t < ?base + n then Some disarmed else kernel_timer st t))"
      using assms all by (intro create_timers_from_ok) auto
    then obtain st' where r: "?r = (0, st')"
      and t: "\<forall>j<n. timers st' ! j = ?base + j"
      and k: "\<forall>t. kernel_timer st' t =
           (if ?base \<le> t \<and> t < ?base + n then Some disarmed else kernel_timer st t)"
      by (auto simp: create_timers_def)
    show ?thesis using r t k by simp
  qed
  have fail_case: "fst ?r = 1 \<and> kernel_timer (snd ?r) = kernel_timer st \<and>
      live_timers (snd ?r) = live_timers st \<and>
      (\<forall>j<i. ?base + j \<notin> live_timers (snd ?r))"
    if i: "i < n" and f: "(\<forall>j<i. ok j) \<and> \<not> ok i" for i
  proof -
    have "\<exists>st'. create_timers_from 0 n ok st = (1, st') \<and>
        pfds st' = pfds st \<and> open_fds st' = open_fds st \<and>
        stderr st' = stderr st @ [Perror ''Failed to create timer''] \<and>
        (\<forall>t. kernel_timer st' t = (if ?base \<le> t then None else kernel_timer st t))"
      using assms i f by (intro create_timers_from_fail [where f = i]) auto
    then obtain st' where r: "?r = (1, st')"
      and k: "\<forall>t. kernel_timer st' t = (if ?base \<le> t then None else kernel_timer st t)"
      by (auto simp: create_timers_def)
    have same: "kernel_timer st' = kernel_timer st"
    proof
      fix t
      show "kernel_timer st' t = kernel_timer st t"
        using k by (simp add: kernel_timer_def)
    qed
    have gone: "\<forall>j<i. ?base + j \<notin> live_timers st'"
      using k by (simp add: live_timers_def)
    show ?thesis using r same gone by (simp add: live_timers_def)
  qed
  show ?thesis using ok_case fail_case by blast
qed

theorem create_timers_all_or_nothing_witness:
  "3 \<le> length (timers sample) \<and> (\<lambda>i::nat. i < 2) 0 \<and> (\<lambda>i::nat. i < 2) 1 \<and>
   \<not> (\<lambda>i::nat. i < 2) 2 \<and> (2::nat) < 3 \<and>
   fst (create_timers 3 (\<lambda>i. i < 2) sample) = 1 \<and>
   live_timers (snd (create_timers 3 (\<lambda>i. i < 2) sample)) = live_timers sample"
proof -
  have h: "3 \<le> length (timers sample)" by (simp add: sample_def)
  show ?thesis
    using h create_timers_all_or_nothing [OF h, of "\<lambda>i. i < 2", THEN conjunct2, rule_format, of 2]
    by simp
qed

section \<open>Properties of the receive buffer\<close>

lemma c_string_terminated:
  "c_string (map Some got @ Some NUL # rest) = Some (takeWhile (\<lambda>c. c \<noteq> NUL) got)"
  by (induction got) auto

lemma terminate_after_received:
  assumes "length got < length buffer"
  shows "(map Some got @ drop (length got) buffer)[length got := Some NUL] =
         map Some got @ Some NUL # drop (Suc (length got)) buffer"
proof -
  from assms obtain y ys where d: "drop (length got) buffer = y # ys"
    by (cases "drop (length got) buffer") auto
  then have "ys = drop (Suc (length got)) buffer"
    by (metis drop_Suc list.sel(3) tl_drop)
  with d show ?thesis by (simp add: list_update_append)
qed

lemma sys_recv_bounds:
  assumes "sys_recv s (replicate BUFFER_SIZE None) (BUFFER_SIZE - 1) rr st = ((ret, buffer), st1)"
  shows "ret \<le> int BUFFER_SIZE - 1 \<and> length buffer = BUFFER_SIZE"
  using assms
  by (auto simp: sys_recv_def BUFFER_SIZE_def Let_def split: if_splits recv_result.splits)

lemma read_client_received:
  assumes "fd (pfds st ! i) \<in> open_fds st" and "d \<noteq> []"
  shows "read_client i (Received d) active st =
         Next active (st\<lparr>stdout := stdout st @
           [(i, takeWhile (\<lambda>c. c \<noteq> NUL) (take (BUFFER_SIZE - 1) d))]\<rparr>)"
proof -
  define got where "got = take (BUFFER_SIZE - 1) d"
  define buffer0 :: "char option list" where "buffer0 = replicate BUFFER_SIZE None"
  let ?buf = "map Some got @ drop (length got) buffer0"
  have lt: "length got < length buffer0"
    by (simp add: BUFFER_SIZE_def got_def buffer0_def)
  have pos: "int (length got) \<noteq> 0" "\<not> int (length got) < 0"
    using assms(2) by (simp_all add: BUFFER_SIZE_def got_def)
  have rcv: "sys_recv (fd (pfds st ! i)) buffer0 (BUFFER_SIZE - 1) (Received d) st =
               ((int (length got), ?buf), st)"
    using assms(1) by (simp add: sys_recv_def Let_def got_def)
  have sc: "store_char ?buf (nat (int (length got))) NUL =
            Some (map Some got @ Some NUL # drop (Suc (length got)) buffer0)"
    using lt terminate_after_received [OF lt] by (simp add: store_char_def)
  have "read_client i (Received d) active st =
         Next active (st\<lparr>stdout := stdout st @ [(i, takeWhile (\<lambda>c. c \<noteq> NUL) got)]\<rparr>)"
    unfolding read_client_def buffer0_def [symmetric] rcv
    by (simp only: prod.case pos if_False sc option.case c_string_terminated)
  then show ?thesis by (simp only: got_def)
qed

text \<open>
  C8. The read from a client asks for at most \<open>BUFFER_SIZE - 1\<close> bytes of a
  \<open>BUFFER_SIZE\<close>-byte buffer, so whatever \<open>recv\<close> returns is at most
  \<open>BUFFER_SIZE - 1\<close>, and for a return value \<open>ret\<close> that is not negative the store of
  the terminator at index \<open>ret\<close> is inside the buffer. The path never leaves the
  buffer, and what it prints for a non-empty read is the received bytes up to their
  first zero byte.
\<close>

theorem read_client_within_buffer:
  "read_client i rr active st \<noteq> Out_of_bounds \<and>
   (\<forall>ret buffer st1.
      sys_recv (fd (pfds st ! i)) (replicate BUFFER_SIZE None) (BUFFER_SIZE - 1) rr st =
        ((ret, buffer), st1) \<longrightarrow>
      ret \<le> int BUFFER_SIZE - 1 \<and> length buffer = BUFFER_SIZE \<and>
      (0 \<le> ret \<longrightarrow> nat ret < length buffer \<and> store_char buffer (nat ret) NUL \<noteq> None)) \<and>
   (fd (pfds st ! i) \<in> open_fds st \<and> rr = Received d \<and> d \<noteq> [] \<longrightarrow>
      read_client i rr active st =
        Next active (st\<lparr>stdout := stdout st @
          [(i, takeWhile (\<lambda>c. c \<noteq> NUL) (take (BUFFER_SIZE - 1) d))]\<rparr>))"
proof -
  have bounds: "ret \<le> int BUFFER_SIZE - 1 \<and> length buffer = BUFFER_SIZE \<and>
      (0 \<le> ret \<longrightarrow> nat ret < length buffer \<and> store_char buffer (nat ret) NUL \<noteq> None)"
    if "sys_recv (fd (pfds st ! i)) (replicate BUFFER_SIZE None) (BUFFER_SIZE - 1) rr st =
        ((ret, buffer), st1)" for ret buffer st1
    using sys_recv_bounds [OF that] by (auto simp: store_char_def BUFFER_SIZE_def)
  have safe: "read_client i rr active st \<noteq> Out_of_bounds"
  proof (cases "fd (pfds st ! i) \<in> open_fds st")
    case False
    then show ?thesis by (simp add: read_client_def sys_recv_def)
  next
    case True
    show ?thesis
    proof (cases rr)
      case (Recv_failed e)
      with True show ?thesis by (simp add: read_client_def sys_recv_def)
    next
      case (Received d)
      show ?thesis
      proof (cases "d = []")
        case True
        with Received \<open>fd (pfds st ! i) \<in> open_fds st\<close> show ?thesis
          by (simp add: read_client_def sys_recv_def)
      next
        case False
        with Received True read_client_received [of st i d active] show ?thesis by simp
      qed
    qed
  qed
  show ?thesis using bounds safe read_client_received by blast
qed

theorem read_client_within_buffer_witness:
  "fd (pfds sample ! 1) \<in> open_fds sample \<and> ''hello'' \<noteq> [] \<and>
   read_client 1 (Received ''hello'') 1 sample = Next 1 (sample\<lparr>stdout := [(1, ''hello'')]\<rparr>) \<and>
   sys_recv (fd (pfds sample ! 1)) (replicate BUFFER_SIZE None) (BUFFER_SIZE - 1)
     (Received ''hello'') sample =
     ((5, map Some ''hello'' @ replicate 1019 None), sample) \<and>
   (5::int) \<le> int BUFFER_SIZE - 1 \<and> (0::int) \<le> 5 \<and>
   store_char (map Some ''hello'' @ replicate 1019 None) (nat 5) NUL \<noteq> None"
proof -
  note T = read_client_within_buffer [of 1 "Received ''hello''" 1 sample "''hello''"]
  have h: "fd (pfds sample ! 1) \<in> open_fds sample" by (simp add: sample_def)
  have r: "sys_recv (fd (pfds sample ! 1)) (replicate BUFFER_SIZE None) (BUFFER_SIZE - 1)
             (Received ''hello'') sample =
           ((5, map Some ''hello'' @ replicate 1019 None), sample)"
    by (simp add: sys_recv_def sample_def BUFFER_SIZE_def)
  have t: "takeWhile (\<lambda>c. c \<noteq> NUL) (take (BUFFER_SIZE - 1) ''hello'') = ''hello''"
    by (simp add: BUFFER_SIZE_def NUL_def)
  have s: "stdout sample = []" by (simp add: sample_def)
  have "read_client 1 (Received ''hello'') 1 sample =
        Next 1 (sample\<lparr>stdout := stdout sample @
          [(1, takeWhile (\<lambda>c. c \<noteq> NUL) (take (BUFFER_SIZE - 1) ''hello''))]\<rparr>)"
    using T h by blast
  then have a: "read_client 1 (Received ''hello'') 1 sample =
                Next 1 (sample\<lparr>stdout := [(1, ''hello'')]\<rparr>)"
    by (simp only: t s append_Nil)
  have b: "(5::int) \<le> int BUFFER_SIZE - 1 \<and> (0::int) \<le> 5 \<and>
           store_char (map Some ''hello'' @ replicate 1019 None) (nat 5) NUL \<noteq> None"
    using T [THEN conjunct2, THEN conjunct1, rule_format, OF r] by simp
  show ?thesis using h a r b by simp
qed

section \<open>Properties of the connection table\<close>

declare find_slot.simps [simp del] clear_slots.simps [simp del] close_all.simps [simp del]

subsection \<open>What the timer calls and \<open>close_connection\<close> leave alone\<close>

lemma kernel_timer_cong:
  "ktimers st' = ktimers st \<Longrightarrow> kernel_timer st' = kernel_timer st"
  by (rule ext) (simp add: kernel_timer_def)

lemma arm_timer_frame [simp]:
  "pfds (snd (arm_timer t st)) = pfds st"
  "timers (snd (arm_timer t st)) = timers st"
  "open_fds (snd (arm_timer t st)) = open_fds st"
  "timeout_triggered (snd (arm_timer t st)) = timeout_triggered st"
  "interrupt_triggered (snd (arm_timer t st)) = interrupt_triggered st"
  "stdout (snd (arm_timer t st)) = stdout st"
  "trace (snd (arm_timer t st)) = trace st"
  "length (ktimers (snd (arm_timer t st))) = length (ktimers st)"
  by (simp_all add: arm_timer_def sys_timer_settime_def perror_def split: option.splits)

lemma arm_timer_result:
  "fst (arm_timer t st) = (if kernel_timer st t = None then 1 else 0)"
  by (simp add: arm_timer_def sys_timer_settime_def split: option.splits)

lemma arm_timer_kernel:
  "kernel_timer (snd (arm_timer t st)) u =
     (if u = t \<and> kernel_timer st t \<noteq> None then Some full_deadline else kernel_timer st u)"
  by (auto simp: arm_timer_def sys_timer_settime_def perror_def kernel_timer_def
      nth_list_update split: option.splits)

lemma disarm_timer_frame [simp]:
  "pfds (snd (disarm_timer t st)) = pfds st"
  "timers (snd (disarm_timer t st)) = timers st"
  "open_fds (snd (disarm_timer t st)) = open_fds st"
  "timeout_triggered (snd (disarm_timer t st)) = timeout_triggered st"
  "interrupt_triggered (snd (disarm_timer t st)) = interrupt_triggered st"
  "stdout (snd (disarm_timer t st)) = stdout st"
  "trace (snd (disarm_timer t st)) = trace st"
  "length (ktimers (snd (disarm_timer t st))) = length (ktimers st)"
  by (simp_all add: disarm_timer_def sys_timer_settime_def perror_def split: option.splits)

lemma disarm_timer_kernel:
  "kernel_timer (snd (disarm_timer t st)) u =
     (if u = t \<and> kernel_timer st t \<noteq> None then Some disarmed else kernel_timer st u)"
  by (auto simp: disarm_timer_def sys_timer_settime_def perror_def kernel_timer_def
      nth_list_update split: option.splits)

lemma disarm_timer_stderr:
  "kernel_timer st t \<noteq> None \<Longrightarrow> stderr (snd (disarm_timer t st)) = stderr st"
  by (auto simp: disarm_timer_def sys_timer_settime_def)

lemma sys_close_frame [simp]:
  "pfds (snd (sys_close s st)) = pfds st"
  "timers (snd (sys_close s st)) = timers st"
  "ktimers (snd (sys_close s st)) = ktimers st"
  "open_fds (snd (sys_close s st)) = open_fds st - {s}"
  "timeout_triggered (snd (sys_close s st)) = timeout_triggered st"
  "interrupt_triggered (snd (sys_close s st)) = interrupt_triggered st"
  "stderr (snd (sys_close s st)) = stderr st"
  "stdout (snd (sys_close s st)) = stdout st"
  "trace (snd (sys_close s st)) = trace st"
  by (simp_all add: sys_close_def)

lemma sys_close_kernel [simp]: "kernel_timer (snd (sys_close s st)) = kernel_timer st"
  by (rule kernel_timer_cong) simp

lemma report_frame [simp]:
  "pfds (report d st) = pfds st"
  "timers (report d st) = timers st"
  "ktimers (report d st) = ktimers st"
  "open_fds (report d st) = open_fds st"
  "errno (report d st) = errno st"
  "timeout_triggered (report d st) = timeout_triggered st"
  "interrupt_triggered (report d st) = interrupt_triggered st"
  "stderr (report d st) = stderr st @ [d]"
  "stdout (report d st) = stdout st"
  "trace (report d st) = trace st"
  by (simp_all add: report_def)

lemma report_kernel [simp]: "kernel_timer (report d st) = kernel_timer st"
  by (rule kernel_timer_cong) simp

lemma perror_frame [simp]:
  "pfds (perror m st) = pfds st"
  "timers (perror m st) = timers st"
  "ktimers (perror m st) = ktimers st"
  "open_fds (perror m st) = open_fds st"
  "errno (perror m st) = errno st"
  "timeout_triggered (perror m st) = timeout_triggered st"
  "interrupt_triggered (perror m st) = interrupt_triggered st"
  "stderr (perror m st) = stderr st @ [Perror m]"
  "stdout (perror m st) = stdout st"
  "trace (perror m st) = trace st"
  by (simp_all add: perror_def)

lemma perror_kernel [simp]: "kernel_timer (perror m st) = kernel_timer st"
  by (rule kernel_timer_cong) simp

lemma close_connection_frame [simp]:
  "pfds (close_connection i t st) = (pfds st)[i := (pfds st ! i)\<lparr>fd := -1\<rparr>]"
  "timers (close_connection i t st) = timers st"
  "open_fds (close_connection i t st) = open_fds st - {fd (pfds st ! i)}"
  "timeout_triggered (close_connection i t st) = timeout_triggered st"
  "interrupt_triggered (close_connection i t st) = interrupt_triggered st"
  "stdout (close_connection i t st) = stdout st"
  "trace (close_connection i t st) = trace st"
  "length (ktimers (close_connection i t st)) = length (ktimers st)"
  by (simp_all add: close_connection_def Let_def)

lemma close_connection_kernel:
  "kernel_timer (close_connection i t st) u =
     (if u = t \<and> kernel_timer st t \<noteq> None then Some disarmed else kernel_timer st u)"
proof -
  have "ktimers (close_connection i t st) = ktimers (snd (disarm_timer t st))"
    by (simp add: close_connection_def Let_def)
  then have "kernel_timer (close_connection i t st) = kernel_timer (snd (disarm_timer t st))"
    by (rule kernel_timer_cong)
  then show ?thesis by (simp add: disarm_timer_kernel)
qed

lemma close_connection_stderr:
  "kernel_timer st t \<noteq> None \<Longrightarrow> stderr (close_connection i t st) = stderr st"
  by (simp add: close_connection_def Let_def disarm_timer_stderr)

subsection \<open>Accepting a connection\<close>

lemma find_slot_full:
  "\<forall>j. i \<le> j \<and> j < mc \<longrightarrow> 0 \<le> fd (pfds st ! j) \<Longrightarrow>
   find_slot mc i s st = (1, snd (sys_close s (report Too_many_connections st)))"
proof (induction mc i s st rule: find_slot.induct)
  case (1 mc i s st)
  show ?case
  proof (cases "i < mc")
    case False
    then show ?thesis by (subst find_slot.simps) simp
  next
    case True
    then have occ: "\<not> fd (pfds st ! i) < 0" using "1.prems" by auto
    have "find_slot mc (Suc i) s st = (1, snd (sys_close s (report Too_many_connections st)))"
      using "1.IH" [OF True occ] "1.prems" by simp
    then show ?thesis using True occ by (subst find_slot.simps) simp
  qed
qed

text \<open>Whatever happens, the table keeps its length; the accepted descriptor ends up
  in a client slot that was free, with a full deadline, or it is closed.\<close>

lemma find_slot_stored_or_closed:
  assumes "mc \<le> length (pfds st)"
  shows "length (pfds (snd (find_slot mc i s st))) = length (pfds st) \<and>
         timers (snd (find_slot mc i s st)) = timers st \<and>
         ((fst (find_slot mc i s st) = 0 \<and>
           (\<exists>j. i \<le> j \<and> j < mc \<and> fd (pfds st ! j) < 0 \<and>
                pfds (snd (find_slot mc i s st)) =
                  (pfds st)[j := (pfds st ! j)\<lparr>fd := s, events := POLLIN\<rparr>] \<and>
                kernel_timer (snd (find_slot mc i s st)) (timers st ! j) = Some full_deadline \<and>
                open_fds (snd (find_slot mc i s st)) = open_fds st)) \<or>
          (fst (find_slot mc i s st) = 1 \<and>
           open_fds (snd (find_slot mc i s st)) = open_fds st - {s}))"
  using assms
proof (induction mc i s st rule: find_slot.induct)
  case (1 mc i s st)
  show ?case
  proof (cases "i < mc")
    case False
    then show ?thesis by (subst (1 2 3 4 5 6 7 8) find_slot.simps) simp
  next
    case True
    show ?thesis
    proof (cases "fd (pfds st ! i) < 0")
      case False
      have eq: "find_slot mc i s st = find_slot mc (Suc i) s st"
        using True False by (subst find_slot.simps) simp
      from "1.IH" [OF True False "1.prems"] show ?thesis
        unfolding eq using Suc_leD by blast
    next
      case free: True
      let ?st1 = "st\<lparr>pfds := (pfds st)[i := (pfds st ! i)\<lparr>fd := s, events := POLLIN\<rparr>]\<rparr>"
      let ?t = "timers st ! i"
      have ilen: "i < length (pfds st)" using True "1.prems" by simp
      have k1: "kernel_timer ?st1 = kernel_timer st" by (rule kernel_timer_cong) simp
      show ?thesis
      proof (cases "kernel_timer st ?t = None")
        case True
        have r: "fst (arm_timer ?t ?st1) = 1" using True by (simp add: arm_timer_result k1)
        have eq: "find_slot mc i s st =
                  (1, close_connection i ?t (snd (arm_timer ?t ?st1)))"
          using \<open>i < mc\<close> free r
          by (subst find_slot.simps) (simp add: Let_def case_prod_beta)
        show ?thesis unfolding eq using ilen by simp
      next
        case False
        have r: "fst (arm_timer ?t ?st1) = 0" using False by (simp add: arm_timer_result k1)
        have eq: "find_slot mc i s st =
                  (0, report (Client_connected i) (snd (arm_timer ?t ?st1)))"
          using \<open>i < mc\<close> free r
          by (subst find_slot.simps) (simp add: Let_def case_prod_beta)
        have "kernel_timer (report (Client_connected i) (snd (arm_timer ?t ?st1))) ?t =
              Some full_deadline"
          using False by (simp add: arm_timer_kernel k1)
        then show ?thesis unfolding eq using \<open>i < mc\<close> free by auto
      qed
    qed
  qed
qed


lemma occupied_clients_bound: "length (occupied_clients st) \<le> length (pfds st) - 1"
proof -
  have "length (occupied_clients st) \<le> length [1..<length (pfds st)]"
    unfolding occupied_clients_def by (rule length_filter_le)
  then show ?thesis by simp
qed

lemma accept_connection_length:
  "mc \<le> length (pfds st) \<Longrightarrow>
   length (pfds (snd (accept_connection mc ar st))) = length (pfds st)"
  using find_slot_stored_or_closed [of mc "snd (sys_accept (fd (pfds st ! 0)) ar st)" 1
      "fst (sys_accept (fd (pfds st ! 0)) ar st)"]
  by (auto simp: accept_connection_def sys_accept_def case_prod_beta split: accept_result.splits)

section \<open>Properties of the timeout check\<close>

declare check_timeouts.simps [simp del] process_events.simps [simp del]

lemma timer_expired_remaining_zero:
  "kernel_timer st t \<noteq> None \<Longrightarrow> timer_expired t st = Ret (remaining_zero st t) st"
  by (auto simp: timer_expired_live remaining_zero_def)

lemma timer_expired_true_iff:
  "timer_expired t st = Ret True st \<longleftrightarrow> remaining_zero st t"
  by (auto simp: timer_expired_def sys_timer_gettime_def remaining_zero_def
      split: option.splits)

text \<open>The effect of the check from slot \<open>i\<close> on, when the timers of the slots it
  looks at exist: exactly the slots it finds occupied and run out are closed.\<close>

lemma check_timeouts_effect:
  assumes "1 \<le> i" and "n \<le> length (pfds st)"
    and "\<forall>j. i \<le> j \<and> j < n \<longrightarrow> kernel_timer st (timers st ! j) \<noteq> None"
  shows "\<exists>st'. check_timeouts i n st = Ret () st' \<and>
      timers st' = timers st \<and> length (pfds st') = length (pfds st) \<and>
      timeout_triggered st' = timeout_triggered st \<and>
      interrupt_triggered st' = interrupt_triggered st \<and>
      stdout st' = stdout st \<and> trace st' = trace st \<and>
      (\<forall>j<length (pfds st). pfds st' ! j =
         (if i \<le> j \<and> evicts n st j then (pfds st ! j)\<lparr>fd := -1\<rparr> else pfds st ! j)) \<and>
      (\<forall>t. kernel_timer st' t =
         (if \<exists>j. i \<le> j \<and> evicts n st j \<and> t = timers st ! j then Some disarmed
          else kernel_timer st t)) \<and>
      open_fds st' = open_fds st - {fd (pfds st ! j) |j. i \<le> j \<and> evicts n st j} \<and>
      stderr st' = stderr st @ map Client_timed_out (filter (evicts n st) [i..<n])"
  using assms
proof (induction i n st rule: check_timeouts.induct)
  case (1 i n st)
  show ?case
  proof (cases "i < n")
    case False
    then have none: "\<And>j. (i \<le> j \<and> evicts n st j) = False" by (auto simp: evicts_def)
    have "check_timeouts i n st = Ret () st" using False by (subst check_timeouts.simps) simp
    then show ?thesis using False by (auto simp: evicts_def)
  next
    case True
    let ?t = "timers st ! i"
    have live: "kernel_timer st ?t \<noteq> None" using "1.prems"(3) True by simp
    have ilen: "i < length (pfds st)" using True "1.prems"(2) by simp
    have up: "[i..<n] = i # [Suc i..<n]" using True by (rule upt_conv_Cons)
    show ?thesis
    proof (cases "evicts n st i")
      case False
      have sets: "\<And>j. (i \<le> j \<and> evicts n st j) = (Suc i \<le> j \<and> evicts n st j)"
        using False by (metis Suc_leD Suc_leI le_neq_implies_less)
      have eq: "check_timeouts i n st = check_timeouts (Suc i) n st"
      proof (cases "0 \<le> fd (pfds st ! i)")
        case f: False
        then show ?thesis using True by (subst check_timeouts.simps) simp
      next
        case occ: True
        then have "\<not> remaining_zero st ?t"
          using False True "1.prems"(1) by (simp add: evicts_def)
        then show ?thesis
          using True occ timer_expired_remaining_zero [OF live]
          by (subst check_timeouts.simps) simp
      qed
      have ih: "\<exists>st'. check_timeouts (Suc i) n st = Ret () st' \<and>
          timers st' = timers st \<and> length (pfds st') = length (pfds st) \<and>
          timeout_triggered st' = timeout_triggered st \<and>
          interrupt_triggered st' = interrupt_triggered st \<and>
          stdout st' = stdout st \<and> trace st' = trace st \<and>
          (\<forall>j<length (pfds st). pfds st' ! j =
             (if Suc i \<le> j \<and> evicts n st j then (pfds st ! j)\<lparr>fd := -1\<rparr> else pfds st ! j)) \<and>
          (\<forall>t. kernel_timer st' t =
             (if \<exists>j. Suc i \<le> j \<and> evicts n st j \<and> t = timers st ! j then Some disarmed
              else kernel_timer st t)) \<and>
          open_fds st' = open_fds st - {fd (pfds st ! j) |j. Suc i \<le> j \<and> evicts n st j} \<and>
          stderr st' = stderr st @ map Client_timed_out (filter (evicts n st) [Suc i..<n])"
      proof (cases "0 \<le> fd (pfds st ! i)")
        case f: False
        show ?thesis using "1.IH"(3) [OF True f] "1.prems" by simp
      next
        case occ: True
        then have nz: "\<not> remaining_zero st ?t"
          using False True "1.prems"(1) by (simp add: evicts_def)
        have te: "timer_expired ?t st = Ret False st"
          using timer_expired_remaining_zero [OF live] nz by simp
        show ?thesis using "1.IH"(2) [OF True occ te] nz "1.prems" by simp
      qed
      from ih obtain st' where r: "check_timeouts (Suc i) n st = Ret () st'"
        and f: "timers st' = timers st" "length (pfds st') = length (pfds st)"
          "timeout_triggered st' = timeout_triggered st"
          "interrupt_triggered st' = interrupt_triggered st"
          "stdout st' = stdout st" "trace st' = trace st"
        and p: "\<forall>j<length (pfds st). pfds st' ! j =
           (if Suc i \<le> j \<and> evicts n st j then (pfds st ! j)\<lparr>fd := -1\<rparr> else pfds st ! j)"
        and k: "\<forall>t. kernel_timer st' t =
           (if \<exists>j. Suc i \<le> j \<and> evicts n st j \<and> t = timers st ! j then Some disarmed
            else kernel_timer st t)"
        and o: "open_fds st' = open_fds st - {fd (pfds st ! j) |j. Suc i \<le> j \<and> evicts n st j}"
        and e: "stderr st' = stderr st @ map Client_timed_out (filter (evicts n st) [Suc i..<n])"
        by auto
      have P: "\<forall>j<length (pfds st). pfds st' ! j =
         (if i \<le> j \<and> evicts n st j then (pfds st ! j)\<lparr>fd := -1\<rparr> else pfds st ! j)"
        using p by (simp add: sets)
      have b: "\<And>t. (\<exists>j. i \<le> j \<and> evicts n st j \<and> t = timers st ! j) =
                 (\<exists>j. Suc i \<le> j \<and> evicts n st j \<and> t = timers st ! j)"
        using sets by blast
      have K: "\<forall>t. kernel_timer st' t =
         (if \<exists>j. i \<le> j \<and> evicts n st j \<and> t = timers st ! j then Some disarmed
          else kernel_timer st t)"
        using k unfolding b by simp
      have O: "open_fds st' = open_fds st - {fd (pfds st ! j) |j. i \<le> j \<and> evicts n st j}"
        using o by (simp add: sets)
      have E: "stderr st' = stderr st @ map Client_timed_out (filter (evicts n st) [i..<n])"
        unfolding e up using False by simp
      show ?thesis unfolding eq using r f P K O E by simp
    next
      case ev: True
      then have occ: "0 \<le> fd (pfds st ! i)" and z: "remaining_zero st ?t"
        by (simp_all add: evicts_def)
      let ?st2 = "close_connection i ?t (report (Client_timed_out i) st)"
      have te: "timer_expired ?t st = Ret True st"
        using timer_expired_remaining_zero [OF live] z by simp
      have eq: "check_timeouts i n st = check_timeouts (Suc i) n ?st2"
        using True occ te by (subst check_timeouts.simps) simp
      have k2: "\<And>u. kernel_timer ?st2 u = (if u = ?t then Some disarmed else kernel_timer st u)"
        using live by (simp add: close_connection_kernel)
      have z2: "\<And>u. remaining_zero ?st2 u = remaining_zero st u"
        using z by (auto simp: remaining_zero_def k2 disarmed_def zero_timespec_def
            split: option.splits)
      have p2: "pfds ?st2 = (pfds st)[i := (pfds st ! i)\<lparr>fd := -1\<rparr>]" by simp
      have ev2: "\<And>j. Suc i \<le> j \<Longrightarrow> evicts n ?st2 j = evicts n st j"
        by (simp add: evicts_def z2)
      have e2: "stderr ?st2 = stderr st @ [Client_timed_out i]"
        using live by (simp add: close_connection_stderr)
      have live2: "\<forall>j. Suc i \<le> j \<and> j < n \<longrightarrow> kernel_timer ?st2 (timers ?st2 ! j) \<noteq> None"
        using "1.prems"(3) by (simp add: k2)
      have len2: "n \<le> length (pfds ?st2)" using "1.prems"(2) by simp
      from "1.IH"(1) [OF True occ te _ _ len2 live2]
      obtain st' where r: "check_timeouts (Suc i) n ?st2 = Ret () st'"
        and f: "timers st' = timers st" "length (pfds st') = length (pfds st)"
          "timeout_triggered st' = timeout_triggered st"
          "interrupt_triggered st' = interrupt_triggered st"
          "stdout st' = stdout st" "trace st' = trace st"
        and p: "\<forall>j<length (pfds st). pfds st' ! j =
           (if Suc i \<le> j \<and> evicts n ?st2 j then (pfds ?st2 ! j)\<lparr>fd := -1\<rparr> else pfds ?st2 ! j)"
        and k: "\<forall>t. kernel_timer st' t =
           (if \<exists>j. Suc i \<le> j \<and> evicts n ?st2 j \<and> t = timers ?st2 ! j then Some disarmed
            else kernel_timer ?st2 t)"
        and o: "open_fds st' =
           open_fds ?st2 - {fd (pfds ?st2 ! j) |j. Suc i \<le> j \<and> evicts n ?st2 j}"
        and e: "stderr st' =
           stderr ?st2 @ map Client_timed_out (filter (evicts n ?st2) [Suc i..<n])"
        by auto
      have P: "\<forall>j<length (pfds st). pfds st' ! j =
         (if i \<le> j \<and> evicts n st j then (pfds st ! j)\<lparr>fd := -1\<rparr> else pfds st ! j)"
      proof (intro allI impI)
        fix j assume j: "j < length (pfds st)"
        show "pfds st' ! j =
          (if i \<le> j \<and> evicts n st j then (pfds st ! j)\<lparr>fd := -1\<rparr> else pfds st ! j)"
        proof (cases "j = i")
          case True
          then show ?thesis using p j ev ilen by simp
        next
          case False
          then have "(i \<le> j) = (Suc i \<le> j)" by auto
          then show ?thesis using p j False ev2 [of j] by (auto simp: nth_list_update)
        qed
      qed
      have K: "\<forall>t. kernel_timer st' t =
         (if \<exists>j. i \<le> j \<and> evicts n st j \<and> t = timers st ! j then Some disarmed
          else kernel_timer st t)"
      proof
        fix t
        have a: "(\<exists>j. Suc i \<le> j \<and> evicts n ?st2 j \<and> t = timers ?st2 ! j) =
                 (\<exists>j. Suc i \<le> j \<and> evicts n st j \<and> t = timers st ! j)"
          using ev2 by auto
        have b: "(\<exists>j. i \<le> j \<and> evicts n st j \<and> t = timers st ! j) =
                 (t = ?t \<or> (\<exists>j. Suc i \<le> j \<and> evicts n st j \<and> t = timers st ! j))"
          using ev by (metis Suc_leD Suc_leI le_neq_implies_less order_refl)
        show "kernel_timer st' t =
         (if \<exists>j. i \<le> j \<and> evicts n st j \<and> t = timers st ! j then Some disarmed
          else kernel_timer st t)"
        proof -
          have k': "kernel_timer st' t =
             (if \<exists>j. Suc i \<le> j \<and> evicts n st j \<and> t = timers st ! j then Some disarmed
              else if t = ?t then Some disarmed else kernel_timer st t)"
            using k [rule_format, of t] unfolding a k2 .
          show ?thesis
          proof (cases "\<exists>j. Suc i \<le> j \<and> evicts n st j \<and> t = timers st ! j")
            case True
            then have T: "(\<exists>j. Suc i \<le> j \<and> evicts n st j \<and> t = timers st ! j) = True"
              by blast
            show ?thesis unfolding b T using k' [unfolded T] by simp
          next
            case False
            then have F: "(\<exists>j. Suc i \<le> j \<and> evicts n st j \<and> t = timers st ! j) = False"
              by blast
            show ?thesis unfolding b F using k' [unfolded F] by simp
          qed
        qed
      qed
      have O: "open_fds st' = open_fds st - {fd (pfds st ! j) |j. i \<le> j \<and> evicts n st j}"
      proof -
        have a: "{fd (pfds ?st2 ! j) |j. Suc i \<le> j \<and> evicts n ?st2 j} =
                 {fd (pfds st ! j) |j. Suc i \<le> j \<and> evicts n st j}"
        proof (rule Collect_cong)
          fix x
          have fdj: "\<And>j. Suc i \<le> j \<Longrightarrow> fd (pfds ?st2 ! j) = fd (pfds st ! j)"
            by (simp add: nth_list_update)
          show "(\<exists>j. x = fd (pfds ?st2 ! j) \<and> Suc i \<le> j \<and> evicts n ?st2 j) =
                (\<exists>j. x = fd (pfds st ! j) \<and> Suc i \<le> j \<and> evicts n st j)"
            using ev2 fdj by metis
        qed
        have b: "{fd (pfds st ! j) |j. i \<le> j \<and> evicts n st j} =
                 insert (fd (pfds st ! i)) {fd (pfds st ! j) |j. Suc i \<le> j \<and> evicts n st j}"
          using ev by (auto simp: Suc_le_eq le_less)
        show ?thesis unfolding o a b by auto
      qed
      have E: "stderr st' = stderr st @ map Client_timed_out (filter (evicts n st) [i..<n])"
      proof -
        have "filter (evicts n ?st2) [Suc i..<n] = filter (evicts n st) [Suc i..<n]"
          by (rule filter_cong) (auto simp: ev2)
        then show ?thesis unfolding e e2 up using ev by simp
      qed
      show ?thesis unfolding eq using r f P K O E by simp
    qed
  qed
qed


lemma evicts_flag [simp]: "evicts n (st\<lparr>timeout_triggered := v\<rparr>) = evicts n st"
  by (rule ext) (simp add: evicts_def remaining_zero_def kernel_timer_def)

lemma kernel_timer_flag [simp]:
  "kernel_timer (st\<lparr>timeout_triggered := v\<rparr>) = kernel_timer st"
  by (rule kernel_timer_cong) simp

lemma timeout_check_clear: "timeout_triggered st = 0 \<Longrightarrow> timeout_check n st = Ret () st"
  by (simp add: timeout_check_def)

lemma timeout_check_effect:
  assumes "timeout_triggered st \<noteq> 0" and "n \<le> length (pfds st)"
    and "\<forall>j. 1 \<le> j \<and> j < n \<longrightarrow> kernel_timer st (timers st ! j) \<noteq> None"
  shows "\<exists>st'. timeout_check n st = Ret () st' \<and>
      timers st' = timers st \<and> length (pfds st') = length (pfds st) \<and>
      timeout_triggered st' = 0 \<and>
      interrupt_triggered st' = interrupt_triggered st \<and>
      stdout st' = stdout st \<and> trace st' = trace st \<and>
      (\<forall>j<length (pfds st). pfds st' ! j =
         (if evicts n st j then (pfds st ! j)\<lparr>fd := -1\<rparr> else pfds st ! j)) \<and>
      (\<forall>t. kernel_timer st' t =
         (if \<exists>j. evicts n st j \<and> t = timers st ! j then Some disarmed
          else kernel_timer st t)) \<and>
      open_fds st' = open_fds st - {fd (pfds st ! j) |j. evicts n st j} \<and>
      stderr st' = stderr st @ map Client_timed_out (filter (evicts n st) [1..<n])"
proof -
  let ?st0 = "st\<lparr>timeout_triggered := 0\<rparr>"
  have one: "\<And>j. (Suc 0 \<le> j \<and> evicts n st j) = evicts n st j"
    by (auto simp: evicts_def)
  have a: "(1::nat) \<le> 1" by simp
  have b: "n \<le> length (pfds ?st0)" using assms(2) by simp
  have c: "\<forall>j. 1 \<le> j \<and> j < n \<longrightarrow> kernel_timer ?st0 (timers ?st0 ! j) \<noteq> None"
    using assms(3) by simp
  have tc: "timeout_check n st = check_timeouts 1 n ?st0"
    using assms(1) by (simp add: timeout_check_def)
  from check_timeouts_effect [OF a b c]
  obtain st' where r: "check_timeouts 1 n ?st0 = Ret () st'"
    and f: "timers st' = timers ?st0" "length (pfds st') = length (pfds ?st0)"
      "timeout_triggered st' = timeout_triggered ?st0"
      "interrupt_triggered st' = interrupt_triggered ?st0"
      "stdout st' = stdout ?st0" "trace st' = trace ?st0"
    and p: "\<forall>j<length (pfds ?st0). pfds st' ! j =
       (if 1 \<le> j \<and> evicts n ?st0 j then (pfds ?st0 ! j)\<lparr>fd := -1\<rparr> else pfds ?st0 ! j)"
    and k: "\<forall>t. kernel_timer st' t =
       (if \<exists>j. 1 \<le> j \<and> evicts n ?st0 j \<and> t = timers ?st0 ! j then Some disarmed
        else kernel_timer ?st0 t)"
    and o: "open_fds st' = open_fds ?st0 - {fd (pfds ?st0 ! j) |j. 1 \<le> j \<and> evicts n ?st0 j}"
    and e: "stderr st' = stderr ?st0 @ map Client_timed_out (filter (evicts n ?st0) [1..<n])"
    by blast
  have one3: "\<And>t. (\<exists>j. Suc 0 \<le> j \<and> evicts n st j \<and> t = timers st ! j) =
                   (\<exists>j. evicts n st j \<and> t = timers st ! j)"
    using one by blast
  have P: "\<forall>j<length (pfds st). pfds st' ! j =
         (if evicts n st j then (pfds st ! j)\<lparr>fd := -1\<rparr> else pfds st ! j)"
    using p by (simp add: one cong: if_cong)
  have K: "\<forall>t. kernel_timer st' t =
         (if \<exists>j. evicts n st j \<and> t = timers st ! j then Some disarmed
          else kernel_timer st t)"
  proof
    fix t
    have "kernel_timer st' t =
       (if \<exists>j. Suc 0 \<le> j \<and> evicts n st j \<and> t = timers st ! j then Some disarmed
        else kernel_timer st t)"
      using k [rule_format, of t] by (simp cong: if_cong)
    then show "kernel_timer st' t =
         (if \<exists>j. evicts n st j \<and> t = timers st ! j then Some disarmed
          else kernel_timer st t)"
      unfolding one3 .
  qed
  have O: "open_fds st' = open_fds st - {fd (pfds st ! j) |j. evicts n st j}"
    using o by (simp add: one)
  have E: "stderr st' = stderr st @ map Client_timed_out (filter (evicts n st) [1..<n])"
    using e by simp
  show ?thesis unfolding tc using r f P K O E by simp
qed

subsection \<open>Time\<close>

lemma elapse_frame [simp]:
  "pfds (elapse d st) = pfds st"
  "timers (elapse d st) = timers st"
  "open_fds (elapse d st) = open_fds st"
  "errno (elapse d st) = errno st"
  "interrupt_triggered (elapse d st) = interrupt_triggered st"
  "stderr (elapse d st) = stderr st"
  "stdout (elapse d st) = stdout st"
  "trace (elapse d st) = trace st"
  "length (ktimers (elapse d st)) = length (ktimers st)"
  by (simp_all add: elapse_def Let_def deliver_def timeout_handler_def interrupt_handler_def
      TIMEOUT_SIGNAL_def SIGINT_def SIGUSR1_def)

lemma elapse_kernel:
  "kernel_timer (elapse d st) t = elapse_timer d (kernel_timer st t)"
  by (simp add: elapse_def Let_def deliver_def timeout_handler_def interrupt_handler_def
      TIMEOUT_SIGNAL_def SIGINT_def SIGUSR1_def kernel_timer_def elapse_timer_def)

lemma elapse_live:
  "kernel_timer (elapse d st) t \<noteq> None \<longleftrightarrow> kernel_timer st t \<noteq> None"
  by (simp add: elapse_kernel elapse_timer_def split: option.splits)

lemma elapse_raises:
  assumes "kernel_timer st t = Some its" and "0 < ns_of (it_value its)"
    and "ns_of (it_value its) \<le> int d"
  shows "timeout_triggered (elapse d st) = 1 \<and> remaining_zero (elapse d st) t"
proof -
  have len: "t < length (ktimers st)" using assms(1) by (rule kernel_timer_length)
  then have "ktimers st ! t = Some its" using assms(1) by (simp add: kernel_timer_def)
  then have "runs_out d (ktimers st ! t)" using assms(2,3) by (simp add: runs_out_def)
  then have "list_ex (runs_out d) (ktimers st)"
    using len by (auto simp: list_ex_iff)
  then have flag: "timeout_triggered (elapse d st) = 1"
    by (simp add: elapse_def Let_def deliver_def timeout_handler_def TIMEOUT_SIGNAL_def
        SIGINT_def SIGUSR1_def)
  have "remaining_zero (elapse d st) t"
    using assms by (simp add: remaining_zero_def elapse_kernel elapse_timer_def zero_timespec_def)
  with flag show ?thesis by simp
qed

subsection \<open>The check inside the loop\<close>

declare event_loop.simps [simp del]

lemma evicts_cong:
  "pfds st' = pfds st \<Longrightarrow> timers st' = timers st \<Longrightarrow> ktimers st' = ktimers st \<Longrightarrow>
   evicts n st' = evicts n st"
  by (rule ext) (simp add: evicts_def remaining_zero_def kernel_timer_def)

lemma table_ok_live: "table_ok n st \<Longrightarrow> j < n \<Longrightarrow> kernel_timer st (timers st ! j) \<noteq> None"
  by (simp add: table_ok_def)

lemma evicted_slot:
  assumes "1 \<le> i" "i < n" "0 \<le> fd (pfds st ! i)"
    and "timer_expired (timers st ! i) st = Ret True st"
  shows "evicts n st i"
  using assms by (simp add: evicts_def timer_expired_true_iff)

lemma spared_slot:
  assumes "i = 0 \<or> fd (pfds st ! i) < 0 \<or> timer_expired (timers st ! i) st = Ret False st"
  shows "\<not> evicts n st i"
proof
  assume e: "evicts n st i"
  then have z: "remaining_zero st (timers st ! i)" by (simp add: evicts_def)
  then have "timer_expired (timers st ! i) st = Ret True st"
    by (simp add: timer_expired_true_iff)
  with assms e show False by (auto simp: evicts_def)
qed

text \<open>The per-slot reading of \<open>timeout_check_effect\<close>.\<close>

lemma timeout_check_slots:
  assumes ok: "table_ok n st" and flag: "timeout_triggered st \<noteq> 0"
  shows "\<exists>st'. timeout_check n st = Ret () st' \<and>
      timeout_triggered st' = 0 \<and> interrupt_triggered st' = interrupt_triggered st \<and>
      timers st' = timers st \<and> length (pfds st') = length (pfds st) \<and>
      trace st' = trace st \<and>
      (\<forall>i. evicts n st i \<longrightarrow>
           pfds st' ! i = (pfds st ! i)\<lparr>fd := -1\<rparr> \<and>
           kernel_timer st' (timers st ! i) = Some disarmed \<and>
           fd (pfds st ! i) \<notin> open_fds st' \<and>
           Client_timed_out i \<in> set (stderr st')) \<and>
      (\<forall>i. i < n \<and> \<not> evicts n st i \<longrightarrow>
           pfds st' ! i = pfds st ! i \<and>
           kernel_timer st' (timers st ! i) = kernel_timer st (timers st ! i) \<and>
           (fd (pfds st ! i) \<in> open_fds st \<longrightarrow> fd (pfds st ! i) \<in> open_fds st') \<and>
           (Client_timed_out i \<in> set (stderr st') \<longrightarrow> Client_timed_out i \<in> set (stderr st)))"
proof -
  have len: "n \<le> length (pfds st)" using ok by (simp add: table_ok_def)
  have live: "\<forall>j. 1 \<le> j \<and> j < n \<longrightarrow> kernel_timer st (timers st ! j) \<noteq> None"
    using ok by (simp add: table_ok_def)
  have dt: "\<And>j k. j < n \<Longrightarrow> k < n \<Longrightarrow> j \<noteq> k \<Longrightarrow> timers st ! j \<noteq> timers st ! k"
    using ok by (simp add: table_ok_def)
  have df: "\<And>j k. j < n \<Longrightarrow> k < n \<Longrightarrow> j \<noteq> k \<Longrightarrow> 0 \<le> fd (pfds st ! j) \<Longrightarrow>
                  fd (pfds st ! j) \<noteq> fd (pfds st ! k)"
    using ok by (simp add: table_ok_def)
  have evn: "\<And>j. evicts n st j \<Longrightarrow> j < n \<and> 1 \<le> j \<and> 0 \<le> fd (pfds st ! j)"
    by (simp add: evicts_def)
  from timeout_check_effect [OF flag len live]
  obtain st' where r: "timeout_check n st = Ret () st'"
    and f: "timers st' = timers st" "length (pfds st') = length (pfds st)"
      "timeout_triggered st' = 0" "interrupt_triggered st' = interrupt_triggered st"
      "trace st' = trace st"
    and p: "\<forall>j<length (pfds st). pfds st' ! j =
         (if evicts n st j then (pfds st ! j)\<lparr>fd := -1\<rparr> else pfds st ! j)"
    and k: "\<forall>t. kernel_timer st' t =
         (if \<exists>j. evicts n st j \<and> t = timers st ! j then Some disarmed
          else kernel_timer st t)"
    and o: "open_fds st' = open_fds st - {fd (pfds st ! j) |j. evicts n st j}"
    and e: "stderr st' = stderr st @ map Client_timed_out (filter (evicts n st) [1..<n])"
    by blast
  have A: "pfds st' ! i = (pfds st ! i)\<lparr>fd := -1\<rparr> \<and>
           kernel_timer st' (timers st ! i) = Some disarmed \<and>
           fd (pfds st ! i) \<notin> open_fds st' \<and>
           Client_timed_out i \<in> set (stderr st')" if ev: "evicts n st i" for i
  proof -
    have i: "i < n" "1 \<le> i" using evn [OF ev] by simp_all
    have "pfds st' ! i = (pfds st ! i)\<lparr>fd := -1\<rparr>" using p i len ev by simp
    moreover have "kernel_timer st' (timers st ! i) = Some disarmed"
      using k ev by auto
    moreover have "fd (pfds st ! i) \<notin> open_fds st'" unfolding o using ev by blast
    moreover have "Client_timed_out i \<in> set (stderr st')" unfolding e using ev i by simp
    ultimately show ?thesis by simp
  qed
  have B: "pfds st' ! i = pfds st ! i \<and>
           kernel_timer st' (timers st ! i) = kernel_timer st (timers st ! i) \<and>
           (fd (pfds st ! i) \<in> open_fds st \<longrightarrow> fd (pfds st ! i) \<in> open_fds st') \<and>
           (Client_timed_out i \<in> set (stderr st') \<longrightarrow> Client_timed_out i \<in> set (stderr st))"
    if i: "i < n" and nev: "\<not> evicts n st i" for i
  proof -
    have "pfds st' ! i = pfds st ! i" using p i len nev by simp
    moreover have "kernel_timer st' (timers st ! i) = kernel_timer st (timers st ! i)"
    proof -
      have "\<not> (\<exists>j. evicts n st j \<and> timers st ! i = timers st ! j)"
      proof
        assume "\<exists>j. evicts n st j \<and> timers st ! i = timers st ! j"
        then obtain j where j: "evicts n st j" "timers st ! i = timers st ! j" by blast
        then have "j \<noteq> i" using nev by auto
        then show False using dt [of i j] i evn [OF j(1)] j(2) by auto
      qed
      then have F: "(\<exists>j. evicts n st j \<and> timers st ! i = timers st ! j) = False" by blast
      show ?thesis using k [rule_format, of "timers st ! i"] unfolding F by simp
    qed
    moreover have "fd (pfds st ! i) \<notin> {fd (pfds st ! j) |j. evicts n st j}"
    proof
      assume "fd (pfds st ! i) \<in> {fd (pfds st ! j) |j. evicts n st j}"
      then obtain j where j: "evicts n st j" "fd (pfds st ! i) = fd (pfds st ! j)" by blast
      then have "j \<noteq> i" using nev by auto
      then show False using df [of j i] i evn [OF j(1)] j(2) by auto
    qed
    then have "fd (pfds st ! i) \<in> open_fds st \<longrightarrow> fd (pfds st ! i) \<in> open_fds st'"
      unfolding o by blast
    moreover have "Client_timed_out i \<in> set (stderr st') \<longrightarrow>
                   Client_timed_out i \<in> set (stderr st)"
      unfolding e using nev by auto
    ultimately show ?thesis by simp
  qed
  show ?thesis using r f A B by blast
qed


lemma enter_poll_frame [simp]:
  "pfds (enter_poll e st) = pfds st"
  "timers (enter_poll e st) = timers st"
  "open_fds (enter_poll e st) = open_fds st"
  "errno (enter_poll e st) = errno st"
  "interrupt_triggered (enter_poll e st) = interrupt_triggered st"
  "stderr (enter_poll e st) = stderr st"
  "stdout (enter_poll e st) = stdout st"
  "trace (enter_poll e st) = trace st @ [Wait]"
  "length (ktimers (enter_poll e st)) = length (ktimers st)"
  by (simp_all add: enter_poll_def)

lemma event_loop_out_of_passes:
  "interrupt_triggered st = 0 \<Longrightarrow> timeout_check n st = Ret () st' \<Longrightarrow>
   event_loop mc n [] st = Running st'"
  by (subst event_loop.simps) simp

lemma event_loop_poll_interrupted:
  assumes "interrupt_triggered st = 0" and "timeout_check n st = Ret () st1"
    and "returns e" and "poll_res e = Poll_failed EINTR"
  shows "event_loop mc n (e # es) st =
         event_loop mc n es
           ((deliver_all (poll_signals e)
              (elapse (waited e) (enter_poll e st1)))\<lparr>errno := EINTR\<rparr>)"
  using assms
  by (subst event_loop.simps) (simp add: wait_for_events_def sys_poll_def)

lemma table_ok_cong:
  "pfds st' = pfds st \<Longrightarrow> timers st' = timers st \<Longrightarrow>
   (\<And>t. (kernel_timer st' t \<noteq> None) = (kernel_timer st t \<noteq> None)) \<Longrightarrow>
   table_ok n st' = table_ok n st"
  by (simp add: table_ok_def)

lemma all_less_3: "(\<forall>j<3. P j) \<longleftrightarrow> P 0 \<and> P 1 \<and> P (2::nat)"
proof -
  have "\<And>j::nat. j < 3 \<longleftrightarrow> j = 0 \<or> j = 1 \<or> j = 2" by auto
  then show ?thesis by auto
qed

lemma table_ok_sample: "table_ok 3 sample"
  by (simp add: table_ok_def all_less_3 sample_def kernel_timer_def)

lemma table_ok_overdue: "table_ok 3 overdue"
  by (simp add: table_ok_def all_less_3 overdue_def sample_def kernel_timer_def)

text \<open>
  C2 at the failing input. Client 1 has sent nothing and its timer has one
  nanosecond left when a pass starts with both flags clear. The loop tests the
  timeout flag, finds it clear and goes on to \<open>poll\<close>, which it calls with an infinite
  timeout. The nanosecond goes by after the test and before \<open>poll\<close> is entered: the
  timer runs out and the handler sets the flag, but the signal is handled before the
  call starts and does not interrupt it. Nothing is ready on any descriptor and no
  further signal arrives, so \<open>poll\<close> does not return: the loop stays inside it with
  the flag set and the timer of client 1 reading zero, and client 1 is still in its
  slot, its descriptor open, with no timeout reported. The check that would close it
  runs only once something else makes \<open>poll\<close> return. When the same nanosecond goes
  by inside \<open>poll\<close>, the signal interrupts the call and the check of the next pass
  closes the client.
\<close>

theorem late_timer_signal_leaves_client_open:
  "interrupt_triggered lapsing = 0 \<and> timeout_triggered lapsing = 0 \<and>
   fd (pfds lapsing ! 1) = 4 \<and>
   kernel_timer lapsing (timers lapsing ! 1) =
     Some \<lparr>it_interval = zero_timespec, it_value = \<lparr>tv_sec = 0, tv_nsec = 1\<rparr>\<rparr> \<and>
   event_loop 3 3 [late_signal_pass] lapsing = Blocked stale \<and>
   timeout_triggered stale = 1 \<and>
   timer_expired (timers stale ! 1) stale = Ret True stale \<and>
   fd (pfds stale ! 1) = 4 \<and> 4 \<in> open_fds stale \<and>
   Client_timed_out 1 \<notin> set (stderr stale) \<and>
   event_loop 3 3 [wakeup_pass] lapsing = Running timed_out \<and>
   timeout_triggered timed_out = 0 \<and>
   fd (pfds timed_out ! 1) = -1 \<and> 4 \<notin> open_fds timed_out \<and>
   Client_timed_out 1 \<in> set (stderr timed_out)"
proof -
  have i0: "interrupt_triggered lapsing = 0" by (simp add: lapsing_def sample_def)
  have tc: "timeout_check 3 lapsing = Ret () lapsing"
    by (rule timeout_check_clear) (simp add: lapsing_def sample_def)
  have start: "timeout_triggered lapsing = 0 \<and> fd (pfds lapsing ! 1) = 4 \<and>
     kernel_timer lapsing (timers lapsing ! 1) =
       Some \<lparr>it_interval = zero_timespec, it_value = \<lparr>tv_sec = 0, tv_nsec = 1\<rparr>\<rparr>"
    by (simp add: lapsing_def sample_def kernel_timer_def)
  have ep: "enter_poll late_signal_pass lapsing = stale"
    by (simp add: enter_poll_def late_signal_pass_def elapse_def elapse_timer_def runs_out_def
        ns_of_def lapsing_def stale_def overdue_def sample_def disarmed_def zero_timespec_def
        deliver_def timeout_handler_def TIMEOUT_SIGNAL_def SIGINT_def SIGUSR1_def Let_def)
  have late: "event_loop 3 3 [late_signal_pass] lapsing = Blocked stale"
    using i0 tc ep by (subst event_loop.simps) (simp add: late_signal_pass_def)
  have left: "timeout_triggered stale = 1 \<and> fd (pfds stale ! 1) = 4 \<and>
              4 \<in> open_fds stale \<and> Client_timed_out 1 \<notin> set (stderr stale)"
    by (simp add: stale_def overdue_def sample_def)
  have zero: "timer_expired (timers stale ! 1) stale = Ret True stale"
    by (simp add: timer_expired_true_iff remaining_zero_def kernel_timer_def stale_def
        overdue_def sample_def disarmed_def zero_timespec_def)
  let ?woken = "stale\<lparr>errno := EINTR\<rparr>"
  have rt: "returns wakeup_pass" and pr: "poll_res wakeup_pass = Poll_failed EINTR"
    by (simp_all add: wakeup_pass_def)
  have w: "(deliver_all (poll_signals wakeup_pass)
             (elapse (waited wakeup_pass) (enter_poll wakeup_pass lapsing)))\<lparr>errno := EINTR\<rparr>
           = ?woken"
    by (simp add: enter_poll_def wakeup_pass_def elapse_def elapse_timer_def runs_out_def
        ns_of_def timespec_of_ns_def lapsing_def stale_def overdue_def sample_def disarmed_def
        zero_timespec_def deliver_all_def deliver_def timeout_handler_def TIMEOUT_SIGNAL_def
        SIGINT_def SIGUSR1_def Let_def)
  have step: "event_loop 3 3 [wakeup_pass] lapsing = event_loop 3 3 [] ?woken"
    using event_loop_poll_interrupted [OF i0 tc rt pr, of 3 "[]"] w by simp
  have i1: "interrupt_triggered ?woken = 0"
    by (simp add: stale_def overdue_def sample_def)
  have fds: "{0, 1, 2, 3, 4} - {4} = {0, 1, 2, 3::int}" by auto
  have c: "timeout_check 3 ?woken = Ret () timed_out"
    by (simp add: timeout_check_def check_timeouts.simps timer_expired_def
        sys_timer_gettime_def kernel_timer_def close_connection_def disarm_timer_def
        sys_timer_settime_def sys_close_def report_def stale_def overdue_def sample_def
        timed_out_def disarmed_def zero_timespec_def Let_def numeral_nat fds)
  have woken: "event_loop 3 3 [wakeup_pass] lapsing = Running timed_out"
    using step event_loop_out_of_passes [OF i1 c] by simp
  have closed: "timeout_triggered timed_out = 0 \<and> fd (pfds timed_out ! 1) = -1 \<and>
                4 \<notin> open_fds timed_out \<and> Client_timed_out 1 \<in> set (stderr timed_out)"
    by (simp add: timed_out_def stale_def overdue_def sample_def)
  show ?thesis using i0 start late left zero woken closed by simp
qed

text \<open>
  C9. \<open>timer_expired\<close> answers true exactly when the remaining time of the timer
  reads zero seconds and zero nanoseconds. That is so for a timer that has run out,
  and equally for one that was disarmed; only a timer with time left (as after
  \<open>arm_timer\<close>) gives false. The timeout check does not call it for a free slot: such
  a slot, whose disarmed timer would read as expired, is left as it is and is not
  reported, whereas an occupied client slot with the same reading is closed.
\<close>

theorem timer_expired_on_disarmed:
  assumes "kernel_timer st t = Some its"
  shows "timer_expired t st =
           Ret (tv_sec (it_value its) = 0 \<and> tv_nsec (it_value its) = 0) st \<and>
         timer_expired t (snd (disarm_timer t st)) = Ret True (snd (disarm_timer t st)) \<and>
         timer_expired t (snd (arm_timer t st)) = Ret False (snd (arm_timer t st)) \<and>
         (0 < ns_of (it_value its) \<and> ns_of (it_value its) \<le> int d \<longrightarrow>
            timer_expired t (elapse d st) = Ret True (elapse d st)) \<and>
         (table_ok n st \<and> timeout_triggered st \<noteq> 0 \<and> i < n \<and> timers st ! i = t \<and>
          tv_sec (it_value its) = 0 \<and> tv_nsec (it_value its) = 0 \<longrightarrow>
            (\<exists>st'. timeout_check n st = Ret () st' \<and>
               (fd (pfds st ! i) < 0 \<longrightarrow>
                  pfds st' ! i = pfds st ! i \<and>
                  (Client_timed_out i \<in> set (stderr st') \<longrightarrow>
                     Client_timed_out i \<in> set (stderr st))) \<and>
               (1 \<le> i \<and> 0 \<le> fd (pfds st ! i) \<longrightarrow>
                  fd (pfds st' ! i) = -1 \<and> Client_timed_out i \<in> set (stderr st'))))"
proof -
  have len: "t < length (ktimers st)" using assms by (rule kernel_timer_length)
  have a: "timer_expired t st =
           Ret (tv_sec (it_value its) = 0 \<and> tv_nsec (it_value its) = 0) st"
    using assms by (rule timer_expired_live)
  have b: "timer_expired t (snd (disarm_timer t st)) = Ret True (snd (disarm_timer t st))"
    using assms
    by (simp add: timer_expired_true_iff remaining_zero_def disarm_timer_kernel disarmed_def
        zero_timespec_def)
  have c: "timer_expired t (snd (arm_timer t st)) = Ret False (snd (arm_timer t st))"
  proof -
    have "kernel_timer (snd (arm_timer t st)) t = Some full_deadline"
      using assms by (simp add: arm_timer_kernel)
    from timer_expired_live [OF this] show ?thesis
      by (simp add: full_deadline_def TIMEOUT_def)
  qed
  have d: "timer_expired t (elapse d st) = Ret True (elapse d st)"
    if "0 < ns_of (it_value its) \<and> ns_of (it_value its) \<le> int d"
    using elapse_raises [OF assms, of d] that by (simp add: timer_expired_true_iff)
  have e: "\<exists>st'. timeout_check n st = Ret () st' \<and>
               (fd (pfds st ! i) < 0 \<longrightarrow>
                  pfds st' ! i = pfds st ! i \<and>
                  (Client_timed_out i \<in> set (stderr st') \<longrightarrow>
                     Client_timed_out i \<in> set (stderr st))) \<and>
               (1 \<le> i \<and> 0 \<le> fd (pfds st ! i) \<longrightarrow>
                  fd (pfds st' ! i) = -1 \<and> Client_timed_out i \<in> set (stderr st'))"
    if h: "table_ok n st \<and> timeout_triggered st \<noteq> 0 \<and> i < n \<and> timers st ! i = t \<and>
          tv_sec (it_value its) = 0 \<and> tv_nsec (it_value its) = 0"
  proof -
    have ok: "table_ok n st" and flag: "timeout_triggered st \<noteq> 0" using h by simp_all
    have ilen: "i < length (pfds st)" using h by (simp add: table_ok_def)
    have rz: "remaining_zero st (timers st ! i)"
      using h assms by (simp add: remaining_zero_def)
    from timeout_check_slots [OF ok flag]
    obtain st' where r: "timeout_check n st = Ret () st'"
      and A: "\<And>i. evicts n st i \<Longrightarrow>
           pfds st' ! i = (pfds st ! i)\<lparr>fd := -1\<rparr> \<and>
           kernel_timer st' (timers st ! i) = Some disarmed \<and>
           fd (pfds st ! i) \<notin> open_fds st' \<and>
           Client_timed_out i \<in> set (stderr st')"
      and B: "\<And>i. i < n \<and> \<not> evicts n st i \<Longrightarrow>
           pfds st' ! i = pfds st ! i \<and>
           kernel_timer st' (timers st ! i) = kernel_timer st (timers st ! i) \<and>
           (fd (pfds st ! i) \<in> open_fds st \<longrightarrow> fd (pfds st ! i) \<in> open_fds st') \<and>
           (Client_timed_out i \<in> set (stderr st') \<longrightarrow> Client_timed_out i \<in> set (stderr st))"
      by blast
    have free: "pfds st' ! i = pfds st ! i \<and>
                (Client_timed_out i \<in> set (stderr st') \<longrightarrow>
                   Client_timed_out i \<in> set (stderr st))"
      if "fd (pfds st ! i) < 0"
    proof -
      have "\<not> evicts n st i" using that by (simp add: evicts_def)
      with B [of i] h show ?thesis by simp
    qed
    have occ: "fd (pfds st' ! i) = -1 \<and> Client_timed_out i \<in> set (stderr st')"
      if "1 \<le> i \<and> 0 \<le> fd (pfds st ! i)"
    proof -
      have "evicts n st i" using that h rz by (simp add: evicts_def)
      from A [OF this] show ?thesis by simp
    qed
    show ?thesis using r free occ by blast
  qed
  show ?thesis using a b c d e by blast
qed

theorem timer_expired_on_disarmed_witness:
  "kernel_timer overdue 2 = Some disarmed \<and> table_ok 3 overdue \<and>
   timeout_triggered overdue \<noteq> 0 \<and> (2::nat) < 3 \<and> timers overdue ! 2 = 2 \<and>
   tv_sec (it_value disarmed) = 0 \<and> tv_nsec (it_value disarmed) = 0 \<and>
   fd (pfds overdue ! 2) < 0 \<and>
   timer_expired 2 overdue = Ret True overdue \<and>
   (\<exists>st'. timeout_check 3 overdue = Ret () st' \<and> pfds st' ! 2 = pfds overdue ! 2 \<and>
      Client_timed_out 2 \<notin> set (stderr st')) \<and>
   kernel_timer sample 1 =
     Some \<lparr>it_interval = zero_timespec, it_value = \<lparr>tv_sec = 5, tv_nsec = 0\<rparr>\<rparr> \<and>
   timer_expired 1 sample = Ret False sample \<and>
   timer_expired 1 (elapse 5000000000 sample) = Ret True (elapse 5000000000 sample)"
proof -
  let ?five = "\<lparr>it_interval = zero_timespec, it_value = \<lparr>tv_sec = 5, tv_nsec = 0\<rparr>\<rparr>"
  have k: "kernel_timer overdue 2 = Some disarmed"
    by (simp add: kernel_timer_def overdue_def sample_def)
  have h: "timeout_triggered overdue \<noteq> 0 \<and> (2::nat) < 3 \<and> timers overdue ! 2 = 2 \<and>
           tv_sec (it_value disarmed) = 0 \<and> tv_nsec (it_value disarmed) = 0 \<and>
           fd (pfds overdue ! 2) < 0 \<and> stderr overdue = []"
    by (simp add: overdue_def sample_def disarmed_def zero_timespec_def)
  note T = timer_expired_on_disarmed [OF k, where n = 3 and i = 2]
  have t: "timer_expired 2 overdue = Ret True overdue" using T h by simp
  have "\<exists>st'. timeout_check 3 overdue = Ret () st' \<and>
          (fd (pfds overdue ! 2) < 0 \<longrightarrow>
             pfds st' ! 2 = pfds overdue ! 2 \<and>
             (Client_timed_out 2 \<in> set (stderr st') \<longrightarrow>
                Client_timed_out 2 \<in> set (stderr overdue)))"
    using T table_ok_overdue h by blast
  then have s: "\<exists>st'. timeout_check 3 overdue = Ret () st' \<and> pfds st' ! 2 = pfds overdue ! 2 \<and>
      Client_timed_out 2 \<notin> set (stderr st')"
    using h by auto
  have k1: "kernel_timer sample 1 = Some ?five" by (simp add: kernel_timer_def sample_def)
  have n1: "0 < ns_of (it_value ?five) \<and> ns_of (it_value ?five) \<le> int 5000000000"
    by (simp add: ns_of_def)
  note U = timer_expired_on_disarmed [OF k1, where d = 5000000000]
  have u1: "timer_expired 1 sample = Ret False sample" using U by simp
  have u2: "timer_expired 1 (elapse 5000000000 sample) = Ret True (elapse 5000000000 sample)"
    using U n1 by blast
  show ?thesis using k table_ok_overdue h t s k1 u1 u2 by simp
qed

section \<open>Properties of the readiness scan\<close>



subsection \<open>What handling a slot leaves alone\<close>

lemma map_revents_update:
  "revents y = revents (xs ! i) \<Longrightarrow> map revents (xs[i := y]) = map revents xs"
  by (induction xs arbitrary: i) (auto split: nat.splits)

lemma map_revents_update_twice:
  "map revents (xs[i := (xs[i := (xs ! i)\<lparr>fd := a, events := b\<rparr>] ! i)\<lparr>fd := c\<rparr>]) =
   map revents xs"
proof (cases "i < length xs")
  case True
  then show ?thesis by (simp add: map_revents_update)
next
  case False
  then have "\<And>y. xs[i := y] = xs" by (simp add: list_update_beyond)
  then show ?thesis by simp
qed

lemma deliver_frame [simp]:
  "pfds (deliver sig st) = pfds st"
  "timers (deliver sig st) = timers st"
  "ktimers (deliver sig st) = ktimers st"
  "open_fds (deliver sig st) = open_fds st"
  "errno (deliver sig st) = errno st"
  "stderr (deliver sig st) = stderr st"
  "stdout (deliver sig st) = stdout st"
  "trace (deliver sig st) = trace st"
  by (simp_all add: deliver_def interrupt_handler_def timeout_handler_def)

lemma deliver_all_frame [simp]:
  "pfds (deliver_all sigs st) = pfds st"
  "timers (deliver_all sigs st) = timers st"
  "ktimers (deliver_all sigs st) = ktimers st"
  "open_fds (deliver_all sigs st) = open_fds st"
  "errno (deliver_all sigs st) = errno st"
  "stderr (deliver_all sigs st) = stderr st"
  "stdout (deliver_all sigs st) = stdout st"
  "trace (deliver_all sigs st) = trace st"
  unfolding deliver_all_def by (induction sigs arbitrary: st; simp)+

lemma deliver_all_nil [simp]: "deliver_all [] st = st"
  by (simp add: deliver_all_def)

lemma deliver_all_kernel [simp]: "kernel_timer (deliver_all sigs st) = kernel_timer st"
  by (rule kernel_timer_cong) simp

lemma close_connection_quiet:
  "map revents (pfds (close_connection i t st)) = map revents (pfds st)"
  by (simp add: map_revents_update)

lemma find_slot_quiet:
  "map revents (pfds (snd (find_slot mc i s st))) = map revents (pfds st) \<and>
   length (pfds (snd (find_slot mc i s st))) = length (pfds st) \<and>
   timers (snd (find_slot mc i s st)) = timers st \<and>
   trace (snd (find_slot mc i s st)) = trace st \<and>
   stdout (snd (find_slot mc i s st)) = stdout st \<and>
   interrupt_triggered (snd (find_slot mc i s st)) = interrupt_triggered st \<and>
   timeout_triggered (snd (find_slot mc i s st)) = timeout_triggered st"
proof (induction mc i s st rule: find_slot.induct)
  case (1 mc i s st)
  show ?case
  proof (cases "i < mc")
    case False
    then show ?thesis by (subst (1 2 3 4 5 6 7) find_slot.simps) simp
  next
    case True
    show ?thesis
    proof (cases "fd (pfds st ! i) < 0")
      case False
      have eq: "find_slot mc i s st = find_slot mc (Suc i) s st"
        using True False by (subst find_slot.simps) simp
      from "1.IH" [OF True False] show ?thesis unfolding eq .
    next
      case free: True
      let ?st1 = "st\<lparr>pfds := (pfds st)[i := (pfds st ! i)\<lparr>fd := s, events := POLLIN\<rparr>]\<rparr>"
      have m: "map revents (pfds ?st1) = map revents (pfds st)"
        by (simp add: map_revents_update)
      have eq: "find_slot mc i s st =
         (if fst (arm_timer (timers st ! i) ?st1) \<noteq> 0
          then (1, close_connection i (timers st ! i) (snd (arm_timer (timers st ! i) ?st1)))
          else (0, report (Client_connected i) (snd (arm_timer (timers st ! i) ?st1))))"
        using True free by (subst find_slot.simps) (simp add: Let_def case_prod_beta)
      show ?thesis unfolding eq using m
        by (simp add: map_revents_update map_revents_update_twice)
    qed
  qed
qed

lemma accept_connection_quiet:
  "map revents (pfds (snd (accept_connection mc ar st))) = map revents (pfds st) \<and>
   length (pfds (snd (accept_connection mc ar st))) = length (pfds st) \<and>
   timers (snd (accept_connection mc ar st)) = timers st \<and>
   trace (snd (accept_connection mc ar st)) = trace st \<and>
   stdout (snd (accept_connection mc ar st)) = stdout st \<and>
   interrupt_triggered (snd (accept_connection mc ar st)) = interrupt_triggered st \<and>
   timeout_triggered (snd (accept_connection mc ar st)) = timeout_triggered st"
proof -
  let ?a = "sys_accept (fd (pfds st ! 0)) ar st"
  have a: "pfds (snd ?a) = pfds st \<and> timers (snd ?a) = timers st \<and> trace (snd ?a) = trace st \<and>
           stdout (snd ?a) = stdout st \<and>
           interrupt_triggered (snd ?a) = interrupt_triggered st \<and>
           timeout_triggered (snd ?a) = timeout_triggered st"
    by (simp add: sys_accept_def split: accept_result.splits)
  show ?thesis
  proof (cases "fst ?a < 0")
    case True
    then show ?thesis using a by (simp add: accept_connection_def case_prod_beta)
  next
    case False
    then have "accept_connection mc ar st = find_slot mc 1 (fst ?a) (snd ?a)"
      by (simp add: accept_connection_def case_prod_beta)
    then show ?thesis using find_slot_quiet [of mc 1 "fst ?a" "snd ?a"] a by simp
  qed
qed

lemma read_client_safe: "read_client i rr active st \<noteq> Out_of_bounds"
proof (cases "fd (pfds st ! i) \<in> open_fds st")
  case False
  then show ?thesis by (simp add: read_client_def sys_recv_def)
next
  case True
  show ?thesis
  proof (cases rr)
    case (Recv_failed e)
    with True show ?thesis by (simp add: read_client_def sys_recv_def)
  next
    case (Received d)
    show ?thesis
    proof (cases "d = []")
      case True
      with Received \<open>fd (pfds st ! i) \<in> open_fds st\<close> show ?thesis
        by (simp add: read_client_def sys_recv_def)
    next
      case False
      with Received True read_client_received [of st i d active] show ?thesis by simp
    qed
  qed
qed

lemma read_client_quiet:
  assumes "body_state (read_client i rr active st) = Some st'"
  shows "map revents (pfds st') = map revents (pfds st) \<and>
         length (pfds st') = length (pfds st) \<and> timers st' = timers st \<and>
         trace st' = trace st \<and> interrupt_triggered st' = interrupt_triggered st \<and>
         timeout_triggered st' = timeout_triggered st"
proof (cases "fd (pfds st ! i) \<in> open_fds st")
  case False
  then show ?thesis using assms
    by (auto simp: read_client_def sys_recv_def split: if_splits)
next
  case True
  show ?thesis
  proof (cases rr)
    case (Recv_failed e)
    with True show ?thesis using assms
      by (auto simp: read_client_def sys_recv_def split: if_splits)
  next
    case (Received d)
    show ?thesis
    proof (cases "d = []")
      case True
      with Received \<open>fd (pfds st ! i) \<in> open_fds st\<close> show ?thesis using assms
        by (auto simp: read_client_def sys_recv_def map_revents_update)
    next
      case False
      with Received True read_client_received [of st i d active] show ?thesis
        using assms by auto
    qed
  qed
qed

lemma service_slot_safe: "service_slot mc i e active st \<noteq> Out_of_bounds"
  by (simp add: service_slot_def Let_def case_prod_beta read_client_safe)

lemma service_slot_quiet:
  assumes "body_state (service_slot mc i e active st) = Some st'"
  shows "map revents (pfds st') = map revents (pfds st) \<and>
         length (pfds st') = length (pfds st) \<and> timers st' = timers st \<and>
         interrupt_triggered st' = interrupt_triggered st \<and>
         timeout_triggered st' = timeout_triggered st \<and>
         trace st' =
           (if fd (pfds st ! i) < 0 \<or> revents (pfds st ! i) = 0 then trace st
            else trace st @ [Service i])"
proof (cases "fd (pfds st ! i) < 0 \<or> revents (pfds st ! i) = 0")
  case True
  then show ?thesis using assms by (auto simp: service_slot_def)
next
  case False
  let ?st1 = "st\<lparr>trace := trace st @ [Service i]\<rparr>"
  let ?t = "timers st ! i"
  show ?thesis
  proof (cases "and (revents (pfds st ! i)) POLLIN = 0")
    case True
    then show ?thesis using False assms
      by (auto simp: service_slot_def Let_def map_revents_update)
  next
    case pollin: False
    show ?thesis
    proof (cases "i = 0")
      case True
      then have "st' = snd (accept_connection mc (accept_res e) ?st1)"
        using False pollin assms by (auto simp: service_slot_def Let_def)
      then show ?thesis using False accept_connection_quiet [of mc "accept_res e" ?st1]
        by simp
    next
      case client: False
      show ?thesis
      proof (cases "fst (arm_timer ?t ?st1) = 0")
        case armed: True
        then have "body_state (read_client i (recv_res e) (active - 1)
                     (snd (arm_timer ?t ?st1))) = Some st'"
          using False pollin client assms
          by (auto simp: service_slot_def Let_def case_prod_beta)
        from read_client_quiet [OF this] show ?thesis using False by simp
      next
        case failed: False
        then have "st' = close_connection i ?t (snd (arm_timer ?t ?st1))"
          using False pollin client assms
          by (auto simp: service_slot_def Let_def case_prod_beta)
        then show ?thesis using False by (simp add: map_revents_update)
      qed
    qed
  qed
qed


subsection \<open>The scan as a whole\<close>

lemma process_events_stop:
  assumes "\<not> (i < mc \<and> 0 < active \<and> interrupt_triggered st = 0)"
  shows "process_events mc i active env st = Next active st"
  by (subst process_events.simps) (rule if_not_P [OF assms])

lemma process_events_step:
  assumes "i < mc \<and> 0 < active \<and> interrupt_triggered st = 0"
  shows "process_events mc i active env st =
     (case service_slot mc i (env i) active st of
        Next active1 st1 \<Rightarrow>
          process_events mc (Suc i) active1 env (deliver_all (signals (env i)) st1)
      | Return r st1 \<Rightarrow> Return r st1
      | Out_of_bounds \<Rightarrow> Out_of_bounds)"
  by (subst process_events.simps) (rule if_P [OF assms])

lemma process_events_safe: "process_events mc i active env st \<noteq> Out_of_bounds"
proof (induction mc i active env st rule: process_events.induct)
  case (1 mc i active env st)
  show ?case
  proof (cases "i < mc \<and> 0 < active \<and> interrupt_triggered st = 0")
    case False
    then show ?thesis by (simp add: process_events_stop)
  next
    case True
    show ?thesis
    proof (cases "service_slot mc i (env i) active st")
      case (Next a st1)
      with "1.IH" [OF True Next] True show ?thesis by (simp add: process_events_step)
    next
      case (Return r st1)
      with True show ?thesis by (simp add: process_events_step)
    next
      case Out_of_bounds
      then show ?thesis using service_slot_safe by blast
    qed
  qed
qed



lemma sorted_wrt_less_hd:
  "sorted_wrt (<) js \<Longrightarrow> (0::nat) \<in> set js \<Longrightarrow> hd js = 0"
  by (cases js) auto

subsection \<open>One pass of the loop\<close>

lemma wait_for_events_frame:
  "trace (snd (wait_for_events n e st)) = trace st @ [Wait] \<and>
   length (pfds (snd (wait_for_events n e st))) = length (pfds st) \<and>
   timers (snd (wait_for_events n e st)) = timers st"
  by (auto simp: wait_for_events_def sys_poll_def Let_def split: poll_result.splits)

lemma wait_for_events_free_slot:
  assumes "i < n" and "n \<le> length (pfds st)" and "fd (pfds st ! i) < 0"
  shows "fst (wait_for_events n e st) \<le> 0 \<or>
         revents (pfds (snd (wait_for_events n e st)) ! i) = 0"
proof (cases "poll_res e")
  case (Poll_failed err)
  then show ?thesis by (simp add: wait_for_events_def sys_poll_def)
next
  case (Poll_ready r)
  have "i < length (take n (pfds st))" using assms(1,2) by simp
  then have "revents (pfds (snd (wait_for_events n e st)) ! i) = 0"
    using Poll_ready assms
    by (simp add: wait_for_events_def sys_poll_def Let_def nth_append)
  then show ?thesis by simp
qed

lemma event_loop_pass:
  assumes "interrupt_triggered st = 0" and "timeout_check n st = Ret () st1"
    and "returns e" and "wait_for_events n e st1 = (active, st2)"
  shows "event_loop mc n (e # es) st =
         (if active \<le> 0 then
            (if errno st2 = EINTR then event_loop mc n es st2
             else Returned 0 (perror ''Failed to poll sockets'' st2))
          else
            (case process_events mc 0 active (slot_envs e) st2 of
               Next a st3 \<Rightarrow> event_loop mc n es st3
             | Return r st3 \<Rightarrow> Returned r st3
             | Out_of_bounds \<Rightarrow> Undefined_behaviour))"
  using assms by (subst event_loop.simps) simp

lemma find_slot_others:
  "0 \<le> fd (pfds st ! j) \<Longrightarrow> pfds (snd (find_slot mc i s st)) ! j = pfds st ! j"
proof (induction mc i s st rule: find_slot.induct)
  case (1 mc i s st)
  show ?case
  proof (cases "i < mc")
    case False
    then show ?thesis by (subst find_slot.simps) simp
  next
    case True
    show ?thesis
    proof (cases "fd (pfds st ! i) < 0")
      case False
      have eq: "find_slot mc i s st = find_slot mc (Suc i) s st"
        using True False by (subst find_slot.simps) simp
      from "1.IH" [OF True False "1.prems"] show ?thesis unfolding eq .
    next
      case free: True
      then have ne: "i \<noteq> j" using "1.prems" by auto
      let ?st1 = "st\<lparr>pfds := (pfds st)[i := (pfds st ! i)\<lparr>fd := s, events := POLLIN\<rparr>]\<rparr>"
      have eq: "find_slot mc i s st =
         (if fst (arm_timer (timers st ! i) ?st1) \<noteq> 0
          then (1, close_connection i (timers st ! i) (snd (arm_timer (timers st ! i) ?st1)))
          else (0, report (Client_connected i) (snd (arm_timer (timers st ! i) ?st1))))"
        using True free by (subst find_slot.simps) (simp add: Let_def case_prod_beta)
      show ?thesis unfolding eq using ne by simp
    qed
  qed
qed

lemma accept_connection_others:
  "0 \<le> fd (pfds st ! j) \<Longrightarrow> pfds (snd (accept_connection mc ar st)) ! j = pfds st ! j"
proof -
  assume j: "0 \<le> fd (pfds st ! j)"
  let ?a = "sys_accept (fd (pfds st ! 0)) ar st"
  have a: "pfds (snd ?a) = pfds st"
    by (simp add: sys_accept_def split: accept_result.splits)
  show ?thesis
  proof (cases "fst ?a < 0")
    case True
    then show ?thesis using a by (simp add: accept_connection_def case_prod_beta)
  next
    case False
    then have "accept_connection mc ar st = find_slot mc 1 (fst ?a) (snd ?a)"
      by (simp add: accept_connection_def case_prod_beta)
    then show ?thesis using find_slot_others [of "snd ?a" j mc 1 "fst ?a"] a j by simp
  qed
qed

lemma read_client_others:
  assumes "body_state (read_client i rr active st) = Some st'" and "j \<noteq> i"
  shows "pfds st' ! j = pfds st ! j"
proof (cases "fd (pfds st ! i) \<in> open_fds st")
  case False
  then show ?thesis using assms
    by (auto simp: read_client_def sys_recv_def split: if_splits)
next
  case True
  show ?thesis
  proof (cases rr)
    case (Recv_failed e)
    with True show ?thesis using assms
      by (auto simp: read_client_def sys_recv_def split: if_splits)
  next
    case (Received d)
    show ?thesis
    proof (cases "d = []")
      case True
      with Received \<open>fd (pfds st ! i) \<in> open_fds st\<close> show ?thesis using assms
        by (auto simp: read_client_def sys_recv_def)
    next
      case False
      with Received True read_client_received [of st i d active] show ?thesis
        using assms by auto
    qed
  qed
qed

lemma read_client_active:
  assumes "read_client i rr active st = Next a st'"
  shows "a = active"
proof (cases "fd (pfds st ! i) \<in> open_fds st")
  case False
  then show ?thesis using assms
    by (auto simp: read_client_def sys_recv_def split: if_splits)
next
  case True
  show ?thesis
  proof (cases rr)
    case (Recv_failed e)
    with True show ?thesis using assms
      by (auto simp: read_client_def sys_recv_def split: if_splits)
  next
    case (Received d)
    show ?thesis
    proof (cases "d = []")
      case True
      with Received \<open>fd (pfds st ! i) \<in> open_fds st\<close> show ?thesis using assms
        by (auto simp: read_client_def sys_recv_def)
    next
      case False
      with Received True read_client_received [of st i d active] show ?thesis
        using assms by auto
    qed
  qed
qed

lemma service_slot_others:
  assumes "body_state (service_slot mc i e active st) = Some st'"
    and "j \<noteq> i" and "0 \<le> fd (pfds st ! j)"
  shows "pfds st' ! j = pfds st ! j"
proof (cases "fd (pfds st ! i) < 0 \<or> revents (pfds st ! i) = 0")
  case True
  then show ?thesis using assms by (auto simp: service_slot_def)
next
  case False
  let ?st1 = "st\<lparr>trace := trace st @ [Service i]\<rparr>"
  let ?t = "timers st ! i"
  show ?thesis
  proof (cases "and (revents (pfds st ! i)) POLLIN = 0")
    case True
    then show ?thesis using False assms
      by (auto simp: service_slot_def Let_def)
  next
    case pollin: False
    show ?thesis
    proof (cases "i = 0")
      case True
      then have "st' = snd (accept_connection mc (accept_res e) ?st1)"
        using False pollin assms by (auto simp: service_slot_def Let_def)
      then show ?thesis
        using accept_connection_others [of ?st1 j mc "accept_res e"] assms(3)
        by simp
    next
      case client: False
      show ?thesis
      proof (cases "fst (arm_timer ?t ?st1) = 0")
        case armed: True
        then have "body_state (read_client i (recv_res e) (active - 1)
                     (snd (arm_timer ?t ?st1))) = Some st'"
          using False pollin client assms
          by (auto simp: service_slot_def Let_def case_prod_beta)
        from read_client_others [OF this assms(2)] show ?thesis by simp
      next
        case failed: False
        then have "st' = close_connection i ?t (snd (arm_timer ?t ?st1))"
          using False pollin client assms
          by (auto simp: service_slot_def Let_def case_prod_beta)
        then show ?thesis using assms(2) by simp
      qed
    qed
  qed
qed

lemma service_slot_active:
  assumes "service_slot mc i e active st = Next a st'"
  shows "a = (if fd (pfds st ! i) < 0 \<or> revents (pfds st ! i) = 0 then active
              else active - 1)"
proof (cases "fd (pfds st ! i) < 0 \<or> revents (pfds st ! i) = 0")
  case True
  then show ?thesis using assms by (auto simp: service_slot_def)
next
  case False
  let ?st1 = "st\<lparr>trace := trace st @ [Service i]\<rparr>"
  let ?t = "timers st ! i"
  show ?thesis
  proof (cases "and (revents (pfds st ! i)) POLLIN \<noteq> 0 \<and> i \<noteq> 0 \<and>
                fst (arm_timer ?t ?st1) = 0")
    case True
    then have "read_client i (recv_res e) (active - 1) (snd (arm_timer ?t ?st1)) = Next a st'"
      using False assms by (auto simp: service_slot_def Let_def case_prod_beta)
    from read_client_active [OF this] show ?thesis using False by simp
  next
    case other: False
    then show ?thesis using False assms
      by (auto simp: service_slot_def Let_def case_prod_beta split: if_splits)
  qed
qed

text \<open>The slots one scan handles are, in order, the slots on which the \<open>poll\<close> before
  reported an event, from the first on: all of them when the scan runs to its end
  without a shutdown request, the first of them at least when there is one.\<close>

lemma process_events_reported:
  assumes "body_state (process_events mc i active env st) = Some st'"
    and "mc \<le> length (pfds st)"
    and "\<forall>j. i \<le> j \<and> j < mc \<and> revents (pfds st ! j) \<noteq> 0 \<longrightarrow> 0 \<le> fd (pfds st ! j)"
  shows "\<exists>js rest. trace st' = trace st @ map Service js \<and>
           filter (\<lambda>j. revents (pfds st ! j) \<noteq> 0) [i..<mc] = js @ rest \<and>
           ((\<exists>a. process_events mc i active env st = Next a st') \<and>
            interrupt_triggered st' = 0 \<and>
            int (length (filter (\<lambda>j. revents (pfds st ! j) \<noteq> 0) [i..<mc])) \<le> active
              \<longrightarrow> rest = []) \<and>
           (i < mc \<and> 0 < active \<and> interrupt_triggered st = 0 \<and> revents (pfds st ! i) \<noteq> 0
              \<longrightarrow> js \<noteq> [] \<and> hd js = i)"
  using assms
proof (induction mc i active env st rule: process_events.induct)
  case (1 mc i active env st)
  let ?P = "\<lambda>j. revents (pfds st ! j) \<noteq> 0"
  show ?case
  proof (cases "i < mc \<and> 0 < active \<and> interrupt_triggered st = 0")
    case False
    then have stop: "process_events mc i active env st = Next active st"
      by (rule process_events_stop)
    then have eq: "st' = st" using "1.prems"(1) by simp
    have "int (length (filter ?P [i..<mc])) \<le> active \<and> interrupt_triggered st = 0
          \<longrightarrow> filter ?P [i..<mc] = []"
    proof (intro impI)
      assume h: "int (length (filter ?P [i..<mc])) \<le> active \<and> interrupt_triggered st = 0"
      show "filter ?P [i..<mc] = []"
      proof (cases "i < mc")
        case False
        then show ?thesis by simp
      next
        case True
        then have "active \<le> 0" using \<open>\<not> (i < mc \<and> 0 < active \<and> interrupt_triggered st = 0)\<close> h
          by simp
        then have "int (length (filter ?P [i..<mc])) \<le> 0" using h by linarith
        then show ?thesis by simp
      qed
    qed
    then show ?thesis unfolding eq using False by auto
  next
    case True
    let ?skip = "fd (pfds st ! i) < 0 \<or> revents (pfds st ! i) = 0"
    let ?here = "if ?skip then [] else [i]"
    have sk: "?skip \<longleftrightarrow> \<not> ?P i" using "1.prems"(3) True by auto
    have split: "filter ?P [i..<mc] = ?here @ filter ?P [Suc i..<mc]"
      using True sk by (simp add: upt_conv_Cons)
    show ?thesis
    proof (cases "service_slot mc i (env i) active st")
      case Out_of_bounds
      then show ?thesis using service_slot_safe by blast
    next
      case (Return r st1)
      then have pe: "process_events mc i active env st = Return r st1"
        using True by (simp add: process_events_step)
      then have eq: "st' = st1" using "1.prems"(1) by simp
      have "body_state (service_slot mc i (env i) active st) = Some st1"
        using Return by simp
      from service_slot_quiet [OF this]
      have q: "trace st1 = trace st @ map Service ?here" by simp
      have c: "?P i \<longrightarrow> ?here \<noteq> [] \<and> hd ?here = i" using sk by auto
      have nn: "\<not> (\<exists>a. process_events mc i active env st = Next a st1)"
        using pe by simp
      show ?thesis unfolding eq using q split nn c by blast
    next
      case (Next a st1)
      let ?sd = "deliver_all (signals (env i)) st1"
      let ?Q = "\<lambda>j. revents (pfds ?sd ! j) \<noteq> 0"
      have pe: "process_events mc i active env st = process_events mc (Suc i) a env ?sd"
        using True Next by (simp add: process_events_step)
      have "body_state (service_slot mc i (env i) active st) = Some st1"
        using Next by simp
      from service_slot_quiet [OF this]
      have q: "map revents (pfds st1) = map revents (pfds st)"
        "length (pfds st1) = length (pfds st)"
        "trace st1 = trace st @ map Service ?here"
        by simp_all
      have rest: "body_state (process_events mc (Suc i) a env ?sd) = Some st'"
        using pe "1.prems"(1) by simp
      have len: "mc \<le> length (pfds ?sd)" using "1.prems"(2) q(2) by simp
      have same: "revents (pfds st1 ! j) = revents (pfds st ! j)" if j: "j < mc" for j
      proof -
        have "j < length (pfds st)" "j < length (pfds st1)"
          using j "1.prems"(2) q(2) by simp_all
        then have "map revents (pfds st1) ! j = revents (pfds st1 ! j)"
          "map revents (pfds st) ! j = revents (pfds st ! j)" by simp_all
        then show ?thesis using q(1) by simp
      qed
      have act: "a = (if ?skip then active else active - 1)"
        using Next by (rule service_slot_active)
      have others: "\<And>j. j \<noteq> i \<Longrightarrow> 0 \<le> fd (pfds st ! j) \<Longrightarrow> pfds st1 ! j = pfds st ! j"
        using service_slot_others [of mc i "env i" active st st1] Next by simp
      have H: "\<forall>j. Suc i \<le> j \<and> j < mc \<and> revents (pfds ?sd ! j) \<noteq> 0 \<longrightarrow> 0 \<le> fd (pfds ?sd ! j)"
      proof (intro allI impI)
        fix j assume j: "Suc i \<le> j \<and> j < mc \<and> revents (pfds ?sd ! j) \<noteq> 0"
        then have "revents (pfds st ! j) \<noteq> 0" using same [of j] by simp
        then have f: "0 \<le> fd (pfds st ! j)" using "1.prems"(3) j by simp
        have "j \<noteq> i" using j by simp
        from others [OF this f] show "0 \<le> fd (pfds ?sd ! j)" using f by simp
      qed
      from "1.IH" [OF True Next rest len H]
      obtain js rest where t: "trace st' = trace ?sd @ map Service js"
        and f: "filter ?Q [Suc i..<mc] = js @ rest"
        and c: "(\<exists>a'. process_events mc (Suc i) a env ?sd = Next a' st') \<and>
                interrupt_triggered st' = 0 \<and>
                int (length (filter ?Q [Suc i..<mc])) \<le> a \<longrightarrow> rest = []"
        by blast
      have fq: "filter ?Q [Suc i..<mc] = filter ?P [Suc i..<mc]"
        by (rule filter_cong) (simp_all add: same)
      have T: "trace st' = trace st @ map Service (?here @ js)"
        using t q(3) by simp
      have F: "filter ?P [i..<mc] = (?here @ js) @ rest"
        using split f fq by simp
      have cnt: "int (length (filter ?P [i..<mc])) \<le> active \<longrightarrow>
                 int (length (filter ?Q [Suc i..<mc])) \<le> a"
        unfolding fq split act by auto
      have C: "(\<exists>a'. process_events mc i active env st = Next a' st') \<and>
               interrupt_triggered st' = 0 \<and>
               int (length (filter ?P [i..<mc])) \<le> active \<longrightarrow> rest = []"
        using c cnt pe by simp
      have L: "?P i \<longrightarrow> ?here @ js \<noteq> [] \<and> hd (?here @ js) = i" using sk by auto
      show ?thesis using T F C L by blast
    qed
  qed
qed


text \<open>What a \<open>poll\<close> that reports events leaves in the table: no event on a free
  slot, and a count that covers the events of the slots the scan looks at.\<close>

lemma count_prefix:
  assumes "mc \<le> length ps"
  shows "length (filter (\<lambda>j. Q ((ps @ qs) ! j)) [0..<mc]) \<le> length (filter Q ps)"
proof -
  have m: "map ((!) (ps @ qs)) [0..<mc] = take mc ps"
    using assms by (auto intro!: nth_equalityI simp: nth_append)
  have "length (filter (\<lambda>j. Q ((ps @ qs) ! j)) [0..<mc]) =
        length (filter Q (map ((!) (ps @ qs)) [0..<mc]))"
    by (simp add: length_filter_map comp_def)
  also have "\<dots> = length (filter Q (take mc ps))" using m by simp
  also have "\<dots> \<le> length (filter Q (take mc ps)) + length (filter Q (drop mc ps))"
    by simp
  also have "\<dots> = length (filter Q (take mc ps @ drop mc ps))"
    by (simp only: filter_append length_append)
  finally show ?thesis by simp
qed

lemma wait_for_events_reported:
  assumes "wait_for_events n e st = (active, st2)" and "0 < active"
    and "mc \<le> n" and "n \<le> length (pfds st)"
  shows "(\<forall>j. j < mc \<and> revents (pfds st2 ! j) \<noteq> 0 \<longrightarrow> 0 \<le> fd (pfds st2 ! j)) \<and>
         int (length (filter (\<lambda>j. revents (pfds st2 ! j) \<noteq> 0) [0..<mc])) \<le> active"
proof (cases "poll_res e")
  case (Poll_failed err)
  then show ?thesis using assms(1,2) by (simp add: wait_for_events_def sys_poll_def)
next
  case (Poll_ready r)
  define ps where
    "ps = map (\<lambda>p. p\<lparr>revents := (if fd p < 0 then 0 else r (fd p))\<rparr>) (take n (pfds st))"
  have p2: "pfds st2 = ps @ drop n (pfds st)"
    and a: "active = int (length (filter (\<lambda>p. revents p \<noteq> 0) ps))"
    using assms(1) Poll_ready
    by (auto simp: wait_for_events_def sys_poll_def Let_def ps_def)
  have l: "length ps = n" using assms(4) by (simp add: ps_def)
  have "0 \<le> fd (pfds st2 ! j)" if j: "j < mc \<and> revents (pfds st2 ! j) \<noteq> 0" for j
  proof -
    have jn: "j < n" using j assms(3) by simp
    then have "pfds st2 ! j = ps ! j" using l by (simp add: p2 nth_append)
    also have "\<dots> = (pfds st ! j)\<lparr>revents := (if fd (pfds st ! j) < 0 then 0
                                                 else r (fd (pfds st ! j)))\<rparr>"
      using jn assms(4) by (simp add: ps_def)
    finally show ?thesis using j by (auto split: if_splits)
  qed
  moreover have "int (length (filter (\<lambda>j. revents (pfds st2 ! j) \<noteq> 0) [0..<mc])) \<le> active"
    unfolding p2 a using count_prefix [of mc ps "\<lambda>p. revents p \<noteq> 0" "drop n (pfds st)"]
      assms(3) l by simp
  ultimately show ?thesis by blast
qed


lemma overdue_check: "timeout_check 3 overdue = Ret () swept"
proof -
  have fds: "{0, 1, 2, 3, 4} - {4} = {0, 1, 2, 3::int}" by auto
  show ?thesis
    by (simp add: timeout_check_def check_timeouts.simps timer_expired_def
        sys_timer_gettime_def kernel_timer_def close_connection_def disarm_timer_def
        sys_timer_settime_def sys_close_def report_def swept_def overdue_def sample_def
        disarmed_def zero_timespec_def Let_def numeral_nat fds)
qed

lemma accept_pass_poll: "wait_for_events 3 accept_pass swept = (1, swept_polled)"
  by (simp add: wait_for_events_def enter_poll_def sys_poll_def elapse_def elapse_timer_def
      runs_out_def ns_of_def timespec_of_ns_def accept_pass_def swept_polled_def swept_def
      overdue_def sample_def POLLIN_def disarmed_def zero_timespec_def)

lemma accept_pass_scan:
  "process_events 3 0 1 (slot_envs accept_pass) swept_polled = Next 0 admitted"
proof -
  let ?env = "slot_envs accept_pass"
  have c0: "0 < (3::nat) \<and> (0::int) < 1 \<and> interrupt_triggered swept_polled = 0"
    by (simp add: swept_polled_def swept_def overdue_def sample_def)
  have v0: "service_slot 3 0 (?env 0) 1 swept_polled = Next 0 admitted"
    by (simp add: service_slot_def accept_connection_def sys_accept_def find_slot.simps
        arm_timer_def sys_timer_settime_def kernel_timer_def report_def accept_pass_def
        admitted_def swept_polled_def swept_def overdue_def sample_def POLLIN_def Let_def
        numeral_nat)
  have d0: "deliver_all (signals (?env 0)) admitted = admitted" by (simp add: accept_pass_def)
  have p1: "process_events 3 (Suc 0) 0 ?env admitted = Next 0 admitted"
    by (rule process_events_stop) simp
  show ?thesis
    by (simp only: process_events_step [OF c0] v0 body.case d0 p1)
qed

text \<open>
  C5. In a pass the timeout check is finished, and every client it found expired is
  closed, before \<open>poll\<close> is entered (\<open>Wait\<close> is recorded after the check has
  returned). When \<open>poll\<close> has reported events, the slots the scan after it handles
  are the slots on which it reported one, taken in ascending order of index from the
  first on: all of them when the scan runs to its end with no shutdown request, a
  front part of them when a shutdown request or a failed read cuts it short. So the
  listener, when \<open>poll\<close> reported an event on it and the scan starts, is handled
  first, before any client. A client that the check of this pass closed is not
  among the slots handled: in this pass no \<open>accept\<close> or \<open>recv\<close> is made for its
  slot. When \<open>poll\<close> has failed no slot is handled.
\<close>

theorem pass_order:
  assumes "table_ok n st" and "mc \<le> n"
  shows "\<exists>st1 active st2 st3 js rest.
           timeout_check n st = Ret () st1 \<and>
           wait_for_events n e st1 = (active, st2) \<and>
           body_state (process_events mc 0 active (slot_envs e) st2) = Some st3 \<and>
           (interrupt_triggered st = 0 \<and> returns e \<longrightarrow>
              event_loop mc n (e # es) st =
                (if active \<le> 0 then
                   (if errno st2 = EINTR then event_loop mc n es st2
                    else Returned 0 (perror ''Failed to poll sockets'' st2))
                 else
                   (case process_events mc 0 active (slot_envs e) st2 of
                      Next a st3 \<Rightarrow> event_loop mc n es st3
                    | Return r st3 \<Rightarrow> Returned r st3
                    | Out_of_bounds \<Rightarrow> Undefined_behaviour))) \<and>
           trace st1 = trace st \<and>
           trace st2 = trace st @ [Wait] \<and>
           trace st3 = trace st @ [Wait] @ map Service js \<and>
           (if 0 < active
            then filter (\<lambda>j. revents (pfds st2 ! j) \<noteq> 0) [0..<mc] = js @ rest
            else js = []) \<and>
           (0 < active \<and> interrupt_triggered st3 = 0 \<and>
            (\<exists>a. process_events mc 0 active (slot_envs e) st2 = Next a st3) \<longrightarrow>
              rest = []) \<and>
           (0 < mc \<and> 0 < active \<and> interrupt_triggered st2 = 0 \<and>
            revents (pfds st2 ! 0) \<noteq> 0 \<longrightarrow>
              js \<noteq> [] \<and> hd js = 0) \<and>
           sorted_wrt (<) js \<and> (0 \<in> set js \<longrightarrow> hd js = 0) \<and>
           (\<forall>i. timeout_triggered st \<noteq> 0 \<and> 1 \<le> i \<and> i < n \<and> 0 \<le> fd (pfds st ! i) \<and>
                timer_expired (timers st ! i) st = Ret True st \<longrightarrow>
              fd (pfds st1 ! i) = -1 \<and> i \<notin> set js)"
proof -
  have len: "n \<le> length (pfds st)" using assms(1) by (simp add: table_ok_def)
  obtain st1 where c: "timeout_check n st = Ret () st1"
    and t1: "trace st1 = trace st" and l1: "length (pfds st1) = length (pfds st)"
    and ev: "\<And>i. timeout_triggered st \<noteq> 0 \<Longrightarrow> evicts n st i \<Longrightarrow> fd (pfds st1 ! i) = -1"
  proof (cases "timeout_triggered st = 0")
    case True
    then have "timeout_check n st = Ret () st" by (rule timeout_check_clear)
    then show ?thesis using that True by simp
  next
    case False
    from timeout_check_slots [OF assms(1) False]
    obtain s where s: "timeout_check n st = Ret () s" "trace s = trace st"
      "length (pfds s) = length (pfds st)"
      "\<And>i. evicts n st i \<Longrightarrow> pfds s ! i = (pfds st ! i)\<lparr>fd := -1\<rparr>"
      by blast
    have "\<And>i. evicts n st i \<Longrightarrow> fd (pfds s ! i) = -1" using s(4) by simp
    then show ?thesis using that s by blast
  qed
  obtain active st2 where w: "wait_for_events n e st1 = (active, st2)"
    by (cases "wait_for_events n e st1") blast
  have t2: "trace st2 = trace st @ [Wait]" and l2: "length (pfds st2) = length (pfds st)"
    using wait_for_events_frame [of n e st1] w t1 l1 by simp_all
  obtain st3 where b: "body_state (process_events mc 0 active (slot_envs e) st2) = Some st3"
    using process_events_safe [of mc 0 active "slot_envs e" st2]
    by (cases "process_events mc 0 active (slot_envs e) st2") auto
  have mlen: "mc \<le> length (pfds st2)" using assms(2) len l2 by simp
  let ?P = "\<lambda>j. revents (pfds st2 ! j) \<noteq> 0"
  have scan: "\<exists>js rest. trace st3 = trace st2 @ map Service js \<and>
      (if 0 < active then filter ?P [0..<mc] = js @ rest else js = []) \<and>
      (0 < active \<and> interrupt_triggered st3 = 0 \<and>
       (\<exists>a. process_events mc 0 active (slot_envs e) st2 = Next a st3) \<longrightarrow> rest = []) \<and>
      (0 < mc \<and> 0 < active \<and> interrupt_triggered st2 = 0 \<and> revents (pfds st2 ! 0) \<noteq> 0 \<longrightarrow>
         js \<noteq> [] \<and> hd js = 0)"
  proof (cases "0 < active")
    case False
    then have "process_events mc 0 active (slot_envs e) st2 = Next active st2"
      by (intro process_events_stop) simp
    then have "st3 = st2" using b by simp
    then have "trace st3 = trace st2 @ map Service [] \<and>
      (if 0 < active then filter ?P [0..<mc] = [] @ [] else ([]::nat list) = []) \<and>
      (0 < active \<and> interrupt_triggered st3 = 0 \<and>
       (\<exists>a. process_events mc 0 active (slot_envs e) st2 = Next a st3) \<longrightarrow>
         ([]::nat list) = []) \<and>
      (0 < mc \<and> 0 < active \<and> interrupt_triggered st2 = 0 \<and> revents (pfds st2 ! 0) \<noteq> 0 \<longrightarrow>
         ([]::nat list) \<noteq> [] \<and> hd [] = (0::nat))"
      using False by simp
    then show ?thesis by (intro exI)
  next
    case True
    have n1: "n \<le> length (pfds st1)" using len l1 by simp
    from wait_for_events_reported [OF w True assms(2) n1]
    have H: "\<forall>j. 0 \<le> j \<and> j < mc \<and> revents (pfds st2 ! j) \<noteq> 0 \<longrightarrow> 0 \<le> fd (pfds st2 ! j)"
      and cnt: "int (length (filter ?P [0..<mc])) \<le> active"
      by simp_all
    from process_events_reported [OF b mlen H]
    obtain js rest where "trace st3 = trace st2 @ map Service js"
      "filter ?P [0..<mc] = js @ rest"
      "(\<exists>a. process_events mc 0 active (slot_envs e) st2 = Next a st3) \<and>
       interrupt_triggered st3 = 0 \<and>
       int (length (filter ?P [0..<mc])) \<le> active \<longrightarrow> rest = []"
      "0 < mc \<and> 0 < active \<and> interrupt_triggered st2 = 0 \<and> revents (pfds st2 ! 0) \<noteq> 0 \<longrightarrow>
         js \<noteq> [] \<and> hd js = 0"
      by blast
    then show ?thesis using True cnt by auto
  qed
  then obtain js rest where t3: "trace st3 = trace st2 @ map Service js"
    and pre: "if 0 < active then filter ?P [0..<mc] = js @ rest else js = []"
    and all: "0 < active \<and> interrupt_triggered st3 = 0 \<and>
       (\<exists>a. process_events mc 0 active (slot_envs e) st2 = Next a st3) \<longrightarrow> rest = []"
    and lst: "0 < mc \<and> 0 < active \<and> interrupt_triggered st2 = 0 \<and>
              revents (pfds st2 ! 0) \<noteq> 0 \<longrightarrow> js \<noteq> [] \<and> hd js = 0"
    by blast
  have "sorted_wrt (<) (filter ?P [0..<mc])" by (rule sorted_wrt_filter) simp
  then have s: "sorted_wrt (<) js" using pre by (auto simp: sorted_wrt_append split: if_splits)
  have r: "\<forall>j\<in>set js. revents (pfds st2 ! j) \<noteq> 0"
  proof
    fix j assume j: "j \<in> set js"
    then have "0 < active" using pre by (auto split: if_splits)
    then have "filter ?P [0..<mc] = js @ rest" using pre by simp
    then have "j \<in> set (filter ?P [0..<mc])" using j by simp
    then show "revents (pfds st2 ! j) \<noteq> 0" by simp
  qed
  have first: "0 \<in> set js \<longrightarrow> hd js = 0" using s by (simp add: sorted_wrt_less_hd)
  have gone: "fd (pfds st1 ! i) = -1 \<and> i \<notin> set js"
    if h: "timeout_triggered st \<noteq> 0 \<and> 1 \<le> i \<and> i < n \<and> 0 \<le> fd (pfds st ! i) \<and>
           timer_expired (timers st ! i) st = Ret True st" for i
  proof -
    have e: "evicts n st i" using h by (simp add: evicted_slot)
    have closed: "fd (pfds st1 ! i) = -1" using ev [OF _ e] h by simp
    have "fst (wait_for_events n e st1) \<le> 0 \<or>
          revents (pfds (snd (wait_for_events n e st1)) ! i) = 0"
      using h len l1 closed by (intro wait_for_events_free_slot) simp_all
    then have "active \<le> 0 \<or> revents (pfds st2 ! i) = 0" using w by simp
    then have "i \<notin> set js"
    proof
      assume "active \<le> 0"
      then have "js = []" using pre by simp
      then show ?thesis by simp
    next
      assume "revents (pfds st2 ! i) = 0"
      then show ?thesis using r by auto
    qed
    with closed show ?thesis by simp
  qed
  have loop: "interrupt_triggered st = 0 \<and> returns e \<longrightarrow>
              event_loop mc n (e # es) st =
                (if active \<le> 0 then
                   (if errno st2 = EINTR then event_loop mc n es st2
                    else Returned 0 (perror ''Failed to poll sockets'' st2))
                 else
                   (case process_events mc 0 active (slot_envs e) st2 of
                      Next a st3 \<Rightarrow> event_loop mc n es st3
                    | Return r st3 \<Rightarrow> Returned r st3
                    | Out_of_bounds \<Rightarrow> Undefined_behaviour))"
    using event_loop_pass [OF _ c _ w] by simp
  have t3': "trace st3 = trace st @ [Wait] @ map Service js" using t3 t2 by simp
  show ?thesis using c w b loop t1 t2 t3' pre all lst s first gone by blast
qed


lemma table_ok_crowded: "table_ok 3 crowded"
  by (simp add: table_ok_def all_less_3 crowded_def sample_def kernel_timer_def)

lemma busy_pass_poll: "wait_for_events 3 busy_pass crowded = (3, busy_polled)"
  by (simp add: wait_for_events_def enter_poll_def sys_poll_def elapse_def elapse_timer_def
      runs_out_def ns_of_def timespec_of_ns_def busy_pass_def busy_polled_def crowded_def
      sample_def POLLIN_def disarmed_def zero_timespec_def full_deadline_def TIMEOUT_def)

lemma busy_pass_scan:
  "process_events 3 0 3 (slot_envs busy_pass) busy_polled = Next 0 busy_done"
proof -
  let ?env = "slot_envs busy_pass"
  let ?s0 = "busy_polled\<lparr>stderr := [Too_many_connections], trace := [Wait, Service 0]\<rparr>"
  let ?s1 = "busy_polled\<lparr>ktimers := [Some disarmed, Some full_deadline, Some full_deadline],
                          stderr := [Too_many_connections],
                          stdout := [(1, ''a'')],
                          trace := [Wait, Service 0, Service 1]\<rparr>"
  have fds: "insert 6 {0, 1, 2, 3, 4, 5} - {6} = {0, 1, 2, 3, 4, 5::int}" by auto
  have c0: "0 < (3::nat) \<and> (0::int) < 3 \<and> interrupt_triggered busy_polled = 0"
    by (simp add: busy_polled_def crowded_def sample_def)
  have c1: "Suc 0 < (3::nat) \<and> (0::int) < 2 \<and> interrupt_triggered ?s0 = 0"
    by (simp add: busy_polled_def crowded_def sample_def)
  have c2: "Suc (Suc 0) < (3::nat) \<and> (0::int) < 1 \<and> interrupt_triggered ?s1 = 0"
    by (simp add: busy_polled_def crowded_def sample_def)
  have v0: "service_slot 3 0 (?env 0) 3 busy_polled = Next 2 ?s0"
    by (simp add: service_slot_def accept_connection_def sys_accept_def find_slot.simps
        sys_close_def report_def busy_pass_def busy_polled_def crowded_def sample_def
        POLLIN_def fds numeral_nat)
  have v1: "service_slot 3 (Suc 0) (?env (Suc 0)) 2 ?s0 = Next 1 ?s1"
    by (simp add: service_slot_def busy_polled_def crowded_def sample_def busy_pass_def
        POLLIN_def arm_timer_def sys_timer_settime_def kernel_timer_def read_client_received
        BUFFER_SIZE_def NUL_def)
  have v2: "service_slot 3 (Suc (Suc 0)) (?env (Suc (Suc 0))) 1 ?s1 = Next 0 busy_done"
    by (simp add: service_slot_def busy_done_def busy_polled_def crowded_def sample_def
        busy_pass_def POLLIN_def arm_timer_def sys_timer_settime_def kernel_timer_def
        read_client_received BUFFER_SIZE_def NUL_def)
  have d0: "deliver_all (signals (?env 0)) ?s0 = ?s0" by (simp add: busy_pass_def)
  have d1: "deliver_all (signals (?env (Suc 0))) ?s1 = ?s1" by (simp add: busy_pass_def)
  have d2: "deliver_all (signals (?env (Suc (Suc 0)))) busy_done = busy_done"
    by (simp add: busy_pass_def)
  have p3: "process_events 3 (Suc (Suc (Suc 0))) 0 ?env busy_done = Next 0 busy_done"
    by (rule process_events_stop) simp
  have p2: "process_events 3 (Suc (Suc 0)) 1 ?env ?s1 = Next 0 busy_done"
    by (simp only: process_events_step [OF c2] v2 body.case d2 p3)
  have p1: "process_events 3 (Suc 0) 2 ?env ?s0 = Next 0 busy_done"
    by (simp only: process_events_step [OF c1] v1 body.case d1 p2)
  show ?thesis
    by (simp only: process_events_step [OF c0] v0 body.case d0 p1)
qed


theorem pass_order_witness:
  "table_ok 3 crowded \<and> (3::nat) \<le> 3 \<and> interrupt_triggered crowded = 0 \<and>
   returns busy_pass \<and>
   timeout_check 3 crowded = Ret () crowded \<and>
   wait_for_events 3 busy_pass crowded = (3, busy_polled) \<and>
   revents (pfds busy_polled ! 0) \<noteq> 0 \<and> revents (pfds busy_polled ! 1) \<noteq> 0 \<and>
   revents (pfds busy_polled ! 2) \<noteq> 0 \<and>
   process_events 3 0 3 (slot_envs busy_pass) busy_polled = Next 0 busy_done \<and>
   interrupt_triggered busy_done = 0 \<and>
   (\<exists>js rest. trace busy_done = trace crowded @ [Wait] @ map Service js \<and>
      filter (\<lambda>j. revents (pfds busy_polled ! j) \<noteq> 0) [0..<3] = js @ rest \<and>
      rest = [] \<and> js = [0, 1, 2] \<and> hd js = 0 \<and> sorted_wrt (<) js) \<and>
   stderr busy_done = [Too_many_connections] \<and>
   stdout busy_done = [(1, ''a''), (2, ''b'')] \<and>
   event_loop 3 3 [busy_pass] crowded = event_loop 3 3 [] busy_done \<and>
   table_ok 3 overdue \<and> timeout_triggered overdue \<noteq> 0 \<and>
   (1::nat) \<le> 1 \<and> (1::nat) < 3 \<and> 0 \<le> fd (pfds overdue ! 1) \<and>
   timer_expired (timers overdue ! 1) overdue = Ret True overdue \<and>
   timeout_check 3 overdue = Ret () swept \<and> fd (pfds swept ! 1) = -1 \<and>
   wait_for_events 3 accept_pass swept = (1, swept_polled) \<and>
   process_events 3 0 1 (slot_envs accept_pass) swept_polled = Next 0 admitted \<and>
   interrupt_triggered admitted = 0 \<and>
   (\<exists>js rest. trace admitted = trace overdue @ [Wait] @ map Service js \<and>
      filter (\<lambda>j. revents (pfds swept_polled ! j) \<noteq> 0) [0..<3] = js @ rest \<and>
      rest = [] \<and> js = [0] \<and> 1 \<notin> set js)"
proof -
  have m: "(3::nat) \<le> 3" by simp
  have i0: "interrupt_triggered crowded = 0 \<and> returns busy_pass"
    by (simp add: crowded_def sample_def busy_pass_def)
  have tc: "timeout_check 3 crowded = Ret () crowded"
    by (rule timeout_check_clear) (simp add: crowded_def sample_def)
  have rv: "revents (pfds busy_polled ! 0) \<noteq> 0 \<and> revents (pfds busy_polled ! 1) \<noteq> 0 \<and>
            revents (pfds busy_polled ! 2) \<noteq> 0"
    by (simp add: busy_polled_def)
  have fl: "filter (\<lambda>j. revents (pfds busy_polled ! j) \<noteq> 0) [0..<3] = [0, 1, 2]"
    by (simp add: busy_polled_def numeral_nat)
  have fin: "interrupt_triggered busy_done = 0 \<and> interrupt_triggered busy_polled = 0 \<and>
             stderr busy_done = [Too_many_connections] \<and>
             stdout busy_done = [(1, ''a''), (2, ''b'')]"
    by (simp add: busy_done_def busy_polled_def crowded_def sample_def)
  from pass_order [OF table_ok_crowded m, of busy_pass "[]"]
  obtain st1 active st2 st3 js rest where
    p: "timeout_check 3 crowded = Ret () st1"
      "wait_for_events 3 busy_pass st1 = (active, st2)"
      "body_state (process_events 3 0 active (slot_envs busy_pass) st2) = Some st3"
      "interrupt_triggered crowded = 0 \<and> returns busy_pass \<longrightarrow>
         event_loop 3 3 [busy_pass] crowded =
           (if active \<le> 0 then
              (if errno st2 = EINTR then event_loop 3 3 [] st2
               else Returned 0 (perror ''Failed to poll sockets'' st2))
            else
              (case process_events 3 0 active (slot_envs busy_pass) st2 of
                 Next a st3 \<Rightarrow> event_loop 3 3 [] st3
               | Return r st3 \<Rightarrow> Returned r st3
               | Out_of_bounds \<Rightarrow> Undefined_behaviour))"
      "trace st3 = trace crowded @ [Wait] @ map Service js"
      "if 0 < active
       then filter (\<lambda>j. revents (pfds st2 ! j) \<noteq> 0) [0..<3] = js @ rest
       else js = []"
      "0 < active \<and> interrupt_triggered st3 = 0 \<and>
       (\<exists>a. process_events 3 0 active (slot_envs busy_pass) st2 = Next a st3) \<longrightarrow>
         rest = []"
      "(0::nat) < 3 \<and> 0 < active \<and> interrupt_triggered st2 = 0 \<and>
       revents (pfds st2 ! 0) \<noteq> 0 \<longrightarrow> js \<noteq> [] \<and> hd js = 0"
      "sorted_wrt (<) js"
    by blast
  have e1: "st1 = crowded" using p(1) tc by simp
  have e2: "active = 3 \<and> st2 = busy_polled" using p(2) busy_pass_poll unfolding e1 by simp
  have e3: "st3 = busy_done" using p(3) busy_pass_scan e2 by simp
  have r0: "rest = []" using p(7) e2 e3 fin busy_pass_scan by simp
  have pre: "filter (\<lambda>j. revents (pfds busy_polled ! j) \<noteq> 0) [0..<3] = js @ rest"
    using p(6) e2 by simp
  have js: "js = [0, 1, 2]" using pre r0 fl by simp
  have hd: "hd js = 0" using p(8) e2 fin rv by simp
  have tr: "trace busy_done = trace crowded @ [Wait] @ map Service js" using p(5) e3 by simp
  have lp: "event_loop 3 3 [busy_pass] crowded = event_loop 3 3 [] busy_done"
    using p(4) i0 e2 busy_pass_scan by simp
  have scan: "\<exists>js rest. trace busy_done = trace crowded @ [Wait] @ map Service js \<and>
      filter (\<lambda>j. revents (pfds busy_polled ! j) \<noteq> 0) [0..<3] = js @ rest \<and>
      rest = [] \<and> js = [0, 1, 2] \<and> hd js = 0 \<and> sorted_wrt (<) js"
    using tr pre r0 js hd p(9) by blast
  have a: "timeout_triggered overdue \<noteq> 0 \<and> (1::nat) \<le> 1 \<and> (1::nat) < 3 \<and>
           0 \<le> fd (pfds overdue ! 1)"
    by (simp add: overdue_def sample_def)
  have b: "timer_expired (timers overdue ! 1) overdue = Ret True overdue"
    by (simp add: timer_expired_true_iff remaining_zero_def kernel_timer_def overdue_def
        sample_def disarmed_def zero_timespec_def)
  have fl2: "filter (\<lambda>j. revents (pfds swept_polled ! j) \<noteq> 0) [0..<3] = [0]"
    by (simp add: swept_polled_def numeral_nat)
  have fin2: "interrupt_triggered admitted = 0"
    by (simp add: admitted_def swept_polled_def swept_def overdue_def sample_def)
  from pass_order [OF table_ok_overdue m, of accept_pass "[]"]
  obtain st1 active st2 st3 js rest where
    q: "timeout_check 3 overdue = Ret () st1"
      "wait_for_events 3 accept_pass st1 = (active, st2)"
      "body_state (process_events 3 0 active (slot_envs accept_pass) st2) = Some st3"
      "trace st3 = trace overdue @ [Wait] @ map Service js"
      "if 0 < active
       then filter (\<lambda>j. revents (pfds st2 ! j) \<noteq> 0) [0..<3] = js @ rest
       else js = []"
      "0 < active \<and> interrupt_triggered st3 = 0 \<and>
       (\<exists>a. process_events 3 0 active (slot_envs accept_pass) st2 = Next a st3) \<longrightarrow>
         rest = []"
      "\<forall>i. timeout_triggered overdue \<noteq> 0 \<and> 1 \<le> i \<and> i < 3 \<and> 0 \<le> fd (pfds overdue ! i) \<and>
           timer_expired (timers overdue ! i) overdue = Ret True overdue \<longrightarrow>
         fd (pfds st1 ! i) = -1 \<and> i \<notin> set js"
    by blast
  have f1: "st1 = swept" using q(1) overdue_check by simp
  have f2: "active = 1 \<and> st2 = swept_polled" using q(2) accept_pass_poll unfolding f1 by simp
  have f3: "st3 = admitted" using q(3) accept_pass_scan f2 by simp
  have g0: "rest = []" using q(6) f2 f3 fin2 accept_pass_scan by simp
  have pre2: "filter (\<lambda>j. revents (pfds swept_polled ! j) \<noteq> 0) [0..<3] = js @ rest"
    using q(5) f2 by simp
  have js2: "js = [0]" using pre2 g0 fl2 by simp
  have gone: "fd (pfds swept ! 1) = -1 \<and> 1 \<notin> set js"
    using q(7) [rule_format, of 1] a b f1 by simp
  have tr2: "trace admitted = trace overdue @ [Wait] @ map Service js" using q(4) f3 by simp
  have ev: "\<exists>js rest. trace admitted = trace overdue @ [Wait] @ map Service js \<and>
      filter (\<lambda>j. revents (pfds swept_polled ! j) \<noteq> 0) [0..<3] = js @ rest \<and>
      rest = [] \<and> js = [0] \<and> 1 \<notin> set js"
    using tr2 pre2 g0 js2 gone by blast
  have cl: "fd (pfds swept ! 1) = -1" using gone by simp
  show ?thesis
    using table_ok_crowded m i0 tc busy_pass_poll rv busy_pass_scan fin scan lp
      table_ok_overdue a b overdue_check cl accept_pass_poll accept_pass_scan fin2 ev
    by blast
qed




subsection \<open>Shutdown\<close>

lemma deliver_all_keeps_interrupt:
  "interrupt_triggered st = 1 \<Longrightarrow> interrupt_triggered (deliver_all sigs st) = 1"
  unfolding deliver_all_def
  by (induction sigs arbitrary: st)
     (simp_all add: deliver_def interrupt_handler_def timeout_handler_def)

lemma deliver_all_sigint:
  "SIGINT \<in> set sigs \<Longrightarrow> interrupt_triggered (deliver_all sigs st) = 1"
proof (induction sigs arbitrary: st)
  case Nil
  then show ?case by simp
next
  case (Cons a sigs)
  have unf: "deliver_all (a # sigs) st = deliver_all sigs (deliver a st)"
    by (simp add: deliver_all_def)
  show ?case
  proof (cases "a = SIGINT")
    case True
    then have "interrupt_triggered (deliver a st) = 1"
      by (simp add: deliver_def interrupt_handler_def)
    then show ?thesis unfolding unf by (rule deliver_all_keeps_interrupt)
  next
    case False
    then have "SIGINT \<in> set sigs" using Cons.prems by simp
    then show ?thesis unfolding unf by (rule Cons.IH)
  qed
qed

lemma event_loop_interrupted:
  "interrupt_triggered st \<noteq> 0 \<Longrightarrow> event_loop mc n envs st = Returned 0 st"
  by (subst event_loop.simps) simp

lemma close_all_effect:
  assumes "mc \<le> length (pfds st)"
  shows "timers (close_all mc i st) = timers st \<and>
         length (pfds (close_all mc i st)) = length (pfds st) \<and>
         (\<forall>j<length (pfds st). fd (pfds (close_all mc i st) ! j) =
            (if i \<le> j \<and> j < mc then -1 else fd (pfds st ! j))) \<and>
         open_fds (close_all mc i st) =
           open_fds st - {fd (pfds st ! j) |j. i \<le> j \<and> j < mc} \<and>
         (\<forall>t. (kernel_timer (close_all mc i st) t \<noteq> None) = (kernel_timer st t \<noteq> None))"
  using assms
proof (induction mc i st rule: close_all.induct)
  case (1 mc i st)
  show ?case
  proof (cases "i < mc")
    case False
    then have "close_all mc i st = st" by (subst close_all.simps) simp
    then show ?thesis using False by auto
  next
    case True
    let ?s = "close_connection i (timers st ! i) st"
    have eq: "close_all mc i st = close_all mc (Suc i) ?s"
      using True by (subst close_all.simps) simp
    have ilen: "i < length (pfds st)" using True "1.prems" by simp
    have len: "mc \<le> length (pfds ?s)" using "1.prems" by simp
    have fds: "\<And>j. j < length (pfds st) \<Longrightarrow>
                 fd (pfds ?s ! j) = (if j = i then -1 else fd (pfds st ! j))"
      by (simp add: nth_list_update)
    have lv: "\<And>t. (kernel_timer ?s t \<noteq> None) = (kernel_timer st t \<noteq> None)"
      by (simp add: close_connection_kernel)
    from "1.IH" [OF True len]
    have ih: "timers (close_all mc (Suc i) ?s) = timers ?s"
      "length (pfds (close_all mc (Suc i) ?s)) = length (pfds ?s)"
      "\<forall>j<length (pfds ?s). fd (pfds (close_all mc (Suc i) ?s) ! j) =
            (if Suc i \<le> j \<and> j < mc then -1 else fd (pfds ?s ! j))"
      "open_fds (close_all mc (Suc i) ?s) =
           open_fds ?s - {fd (pfds ?s ! j) |j. Suc i \<le> j \<and> j < mc}"
      "\<forall>t. (kernel_timer (close_all mc (Suc i) ?s) t \<noteq> None) = (kernel_timer ?s t \<noteq> None)"
      by blast+
    have P: "\<forall>j<length (pfds st). fd (pfds (close_all mc (Suc i) ?s) ! j) =
            (if i \<le> j \<and> j < mc then -1 else fd (pfds st ! j))"
    proof (intro allI impI)
      fix j assume j: "j < length (pfds st)"
      then have "fd (pfds (close_all mc (Suc i) ?s) ! j) =
                 (if Suc i \<le> j \<and> j < mc then -1 else fd (pfds ?s ! j))"
        using ih(3) by simp
      then show "fd (pfds (close_all mc (Suc i) ?s) ! j) =
            (if i \<le> j \<and> j < mc then -1 else fd (pfds st ! j))"
        using fds [OF j] True by (cases "j = i") auto
    qed
    have sets: "{fd (pfds ?s ! j) |j. Suc i \<le> j \<and> j < mc} =
                {fd (pfds st ! j) |j. Suc i \<le> j \<and> j < mc}"
    proof (rule Collect_cong)
      fix x
      have "\<And>j. Suc i \<le> j \<and> j < mc \<Longrightarrow> fd (pfds ?s ! j) = fd (pfds st ! j)"
        using fds "1.prems" by simp
      then show "(\<exists>j. x = fd (pfds ?s ! j) \<and> Suc i \<le> j \<and> j < mc) =
                 (\<exists>j. x = fd (pfds st ! j) \<and> Suc i \<le> j \<and> j < mc)"
        by metis
    qed
    have ins: "{fd (pfds st ! j) |j. i \<le> j \<and> j < mc} =
               insert (fd (pfds st ! i)) {fd (pfds st ! j) |j. Suc i \<le> j \<and> j < mc}"
      using True by (auto simp: Suc_le_eq le_less)
    have O: "open_fds (close_all mc (Suc i) ?s) =
             open_fds st - {fd (pfds st ! j) |j. i \<le> j \<and> j < mc}"
      unfolding ih(4) sets ins by auto
    show ?thesis unfolding eq using ih(1,2,5) P O lv by simp
  qed
qed

lemma shutdown_server_effect:
  assumes "table_ok mc st"
  shows "fst (shutdown_server mc n st) = 0 \<and>
         (\<forall>j<mc. fd (pfds (snd (shutdown_server mc n st)) ! j) = -1 \<and>
                 fd (pfds st ! j) \<notin> open_fds (snd (shutdown_server mc n st)) \<and>
                 kernel_timer (snd (shutdown_server mc n st)) (timers st ! j) = None)"
proof -
  let ?s0 = "report (Progress ''Closing all client connections'') st"
  let ?s1 = "close_all mc 0 ?s0"
  let ?s2 = "report (Progress ''Destroying timeout timers'') ?s1"
  have len: "mc \<le> length (pfds ?s0)" using assms by (simp add: table_ok_def)
  from close_all_effect [OF len, of 0]
  have c: "timers ?s1 = timers st" "length (pfds ?s1) = length (pfds st)"
    "\<forall>j<length (pfds st). fd (pfds ?s1 ! j) = (if j < mc then -1 else fd (pfds st ! j))"
    "open_fds ?s1 = open_fds st - {fd (pfds st ! j) |j. j < mc}"
    "\<forall>t. (kernel_timer ?s1 t \<noteq> None) = (kernel_timer st t \<noteq> None)"
    by simp_all
  have l1: "\<forall>j. 0 \<le> j \<and> j < mc \<longrightarrow> kernel_timer ?s2 (timers ?s2 ! j) \<noteq> None"
    using assms c(1,5) by (simp add: table_ok_def)
  have l2: "\<forall>j k. 0 \<le> j \<and> j < k \<and> k < mc \<longrightarrow> timers ?s2 ! j \<noteq> timers ?s2 ! k"
    using assms c(1) by (simp add: table_ok_def)
  from destroy_timers_from_live [OF l1 l2]
  obtain s3 where d: "destroy_timers_from 0 mc ?s2 = (0, s3)"
    and f: "pfds s3 = pfds ?s2" "open_fds s3 = open_fds ?s2"
    and k: "\<forall>t. kernel_timer s3 t =
       (if t \<in> (!) (timers ?s2) ` {0..<mc} then None else kernel_timer ?s2 t)"
    by blast
  have r: "shutdown_server mc n st = (0, report (Progress ''Server shut down'') s3)"
    using d by (simp add: shutdown_server_def destroy_timers_def Let_def)
  have "fd (pfds s3 ! j) = -1 \<and> fd (pfds st ! j) \<notin> open_fds s3 \<and>
        kernel_timer s3 (timers st ! j) = None" if j: "j < mc" for j
  proof -
    have jl: "j < length (pfds st)" using j assms by (simp add: table_ok_def)
    have a: "fd (pfds s3 ! j) = -1" using f(1) c(3) jl j by simp
    have b: "fd (pfds st ! j) \<notin> open_fds s3" using f(2) c(4) j by auto
    have "timers st ! j \<in> (!) (timers ?s2) ` {0..<mc}" using j c(1) by auto
    then have "kernel_timer s3 (timers st ! j) = None" using k by simp
    with a b show ?thesis by simp
  qed
  then show ?thesis unfolding r by simp
qed

lemma main_after_loop:
  assumes "initialise_server MAX_CONNECTIONS ie st = (0, st1)"
    and "event_loop MAX_CONNECTIONS MAX_CONNECTIONS envs st1 = Returned r st2"
  shows "main ie envs st =
         Returned (if r \<noteq> 0 then EXIT_FAILURE else EXIT_SUCCESS)
           (snd (shutdown_server MAX_CONNECTIONS MAX_CONNECTIONS st2))"
  using assms by (simp add: main_def)

section \<open>Exit status\<close>

lemma clear_slots_boot:
  "clear_slots 0 MAX_CONNECTIONS boot =
   boot\<lparr>pfds := replicate MAX_CONNECTIONS \<lparr>fd = -1, events = 0, revents = 0\<rparr>\<rparr>"
  by (simp add: clear_slots.simps MAX_CONNECTIONS_def boot_def numeral_nat)

lemma start_up: "initialise_server MAX_CONNECTIONS good_start boot = (0, booted)"
  unfolding initialise_server_def clear_slots_boot
  by (simp add: initialise_signal_handler_def good_start_def create_timers_def
      create_timers_from.simps sys_timer_create_def initialise_listening_socket_def
      MAX_CONNECTIONS_def boot_def booted_def report_def Let_def POLLIN_def numeral_nat)

lemma event_loop_poll_failed:
  assumes "interrupt_triggered st = 0" and "timeout_check n st = Ret () st1"
    and "returns e" and "poll_res e = Poll_failed err" and "err \<noteq> EINTR"
  shows "event_loop mc n (e # es) st =
         Returned 0 (perror ''Failed to poll sockets''
           ((deliver_all (poll_signals e)
              (elapse (waited e) (enter_poll e st1)))\<lparr>errno := err\<rparr>))"
  using assms
  by (subst event_loop.simps) (simp add: wait_for_events_def sys_poll_def)

lemma read_failure_returns_1:
  assumes "i \<noteq> 0" and "0 \<le> fd (pfds st ! i)" and "and (revents (pfds st ! i)) POLLIN \<noteq> 0"
    and "fd (pfds st ! i) \<in> open_fds st" and "kernel_timer st (timers st ! i) \<noteq> None"
    and "recv_res e = Recv_failed err" and "err \<noteq> EINTR"
  shows "\<exists>st'. service_slot mc i e active st = Return 1 st'"
proof -
  let ?st1 = "st\<lparr>trace := trace st @ [Service i]\<rparr>"
  have rv: "revents (pfds st ! i) \<noteq> 0" using assms(3) by auto
  have k1: "kernel_timer ?st1 = kernel_timer st" by (rule kernel_timer_cong) simp
  from assms(5) obtain its where "kernel_timer ?st1 (timers st ! i) = Some its"
    by (auto simp: k1)
  then have arm: "arm_timer (timers st ! i) ?st1 =
      (0, ?st1\<lparr>ktimers := (ktimers ?st1)[timers st ! i := Some full_deadline]\<rparr>)"
    by (rule arm_timer_live)
  show ?thesis
    using assms(1,2,4,6,7) rv assms(3) arm
    by (simp add: service_slot_def Let_def read_client_def sys_recv_def)
qed

text \<open>
  C3 at the failing input. The start-up succeeds and the first \<open>poll\<close> fails with
  \<open>ENOMEM\<close>, an error that is not an interrupt: the loop reports the failure and
  returns 0, so \<open>main\<close> shuts the server down and exits with \<open>EXIT_SUCCESS\<close>, where
  the specification has a failure status.
\<close>

theorem poll_failure_exits_with_success:
  "ENOMEM \<noteq> EINTR \<and> EXIT_SUCCESS \<noteq> EXIT_FAILURE \<and>
   event_loop MAX_CONNECTIONS MAX_CONNECTIONS [broken_pass] booted =
     Returned 0 (perror ''Failed to poll sockets'' (booted\<lparr>trace := [Wait], errno := ENOMEM\<rparr>)) \<and>
   exit_status (main good_start [broken_pass] boot) = Some EXIT_SUCCESS"
proof -
  have ne: "ENOMEM \<noteq> EINTR" by (simp add: ENOMEM_def EINTR_def)
  have i0: "interrupt_triggered booted = 0" by (simp add: booted_def boot_def)
  have tc: "timeout_check MAX_CONNECTIONS booted = Ret () booted"
    by (rule timeout_check_clear) (simp add: booted_def boot_def)
  have pr: "poll_res broken_pass = Poll_failed ENOMEM" by (simp add: broken_pass_def)
  have rt: "returns broken_pass" by (simp add: broken_pass_def)
  have el: "elapse 0 (enter_poll broken_pass booted) = booted\<lparr>trace := [Wait]\<rparr>"
    by (simp add: enter_poll_def broken_pass_def elapse_def elapse_timer_def runs_out_def
        booted_def boot_def disarmed_def zero_timespec_def ns_of_def Let_def list_ex_iff)
  have loop: "event_loop MAX_CONNECTIONS MAX_CONNECTIONS [broken_pass] booted =
     Returned 0 (perror ''Failed to poll sockets'' (booted\<lparr>trace := [Wait], errno := ENOMEM\<rparr>))"
    using event_loop_poll_failed [OF i0 tc rt pr ne, of MAX_CONNECTIONS "[]"] el
    by (simp add: broken_pass_def)
  have "exit_status (main good_start [broken_pass] boot) = Some EXIT_SUCCESS"
    using main_after_loop [OF start_up loop] by simp
  then show ?thesis using ne loop by (simp add: EXIT_SUCCESS_def EXIT_FAILURE_def)
qed


lemma sigint_pass_poll: "wait_for_events 3 sigint_pass crowded = (2, polled)"
  by (simp add: wait_for_events_def enter_poll_def sys_poll_def elapse_def elapse_timer_def runs_out_def
      ns_of_def timespec_of_ns_def sigint_pass_def polled_def crowded_def sample_def POLLIN_def
      disarmed_def zero_timespec_def full_deadline_def TIMEOUT_def)

lemma sigint_pass_listener: "service_slot 3 0 (slot_envs sigint_pass 0) 2 polled = Next 2 polled"
  by (simp add: service_slot_def polled_def crowded_def sample_def)

lemma sigint_pass_client:
  "service_slot 3 (Suc 0) (slot_envs sigint_pass (Suc 0)) 2 polled = Next 1 served"
  by (simp add: service_slot_def served_def polled_def crowded_def sample_def sigint_pass_def
      POLLIN_def arm_timer_def sys_timer_settime_def kernel_timer_def read_client_received
      BUFFER_SIZE_def NUL_def)

lemma sigint_pass_signal:
  "deliver_all (signals (slot_envs sigint_pass (Suc 0))) served =
   served\<lparr>interrupt_triggered := 1\<rparr>"
  by (simp add: sigint_pass_def deliver_all_def deliver_def interrupt_handler_def)

text \<open>
  C6, as the code has it. Once the shutdown flag is set the scan handles no further
  slot: the slot during whose handling the signal arrives is completed, the events
  of the slots after it, though reported by the same \<open>poll\<close>, are left unhandled, and
  the loop returns 0 at the top of the next pass. When the loop has returned,
  \<open>main\<close> runs \<open>shutdown_server\<close>, after which every slot is free, every descriptor
  that was in the table is closed and every timer of the table is deleted.
\<close>

theorem shutdown_stops_scan:
  "(interrupt_triggered st \<noteq> 0 \<longrightarrow>
      process_events mc i active env st = Next active st \<and>
      event_loop mc n envs st = Returned 0 st) \<and>
   (i < mc \<and> 0 < active \<and> interrupt_triggered st = 0 \<and> SIGINT \<in> set (signals (env i)) \<and>
    service_slot mc i (env i) active st = Next a st1 \<longrightarrow>
      process_events mc i active env st = Next a (deliver_all (signals (env i)) st1) \<and>
      event_loop mc n envs (deliver_all (signals (env i)) st1) =
        Returned 0 (deliver_all (signals (env i)) st1)) \<and>
   (table_ok mc st \<longrightarrow>
      fst (shutdown_server mc n st) = 0 \<and>
      (\<forall>j<mc. fd (pfds (snd (shutdown_server mc n st)) ! j) = -1 \<and>
              fd (pfds st ! j) \<notin> open_fds (snd (shutdown_server mc n st)) \<and>
              kernel_timer (snd (shutdown_server mc n st)) (timers st ! j) = None)) \<and>
   (initialise_server MAX_CONNECTIONS ie st0 = (0, st) \<and>
    event_loop MAX_CONNECTIONS MAX_CONNECTIONS envs st = Returned r st2 \<longrightarrow>
      main ie envs st0 =
        Returned (if r \<noteq> 0 then EXIT_FAILURE else EXIT_SUCCESS)
          (snd (shutdown_server MAX_CONNECTIONS MAX_CONNECTIONS st2)))"
proof -
  have a: "process_events mc i active env st = Next active st \<and>
           event_loop mc n envs st = Returned 0 st"
    if "interrupt_triggered st \<noteq> 0"
    using that by (simp add: process_events_stop event_loop_interrupted)
  have b: "process_events mc i active env st = Next a (deliver_all (signals (env i)) st1) \<and>
           event_loop mc n envs (deliver_all (signals (env i)) st1) =
             Returned 0 (deliver_all (signals (env i)) st1)"
    if h: "i < mc \<and> 0 < active \<and> interrupt_triggered st = 0 \<and>
           SIGINT \<in> set (signals (env i)) \<and>
           service_slot mc i (env i) active st = Next a st1"
  proof -
    let ?sd = "deliver_all (signals (env i)) st1"
    have c: "i < mc \<and> 0 < active \<and> interrupt_triggered st = 0" using h by simp
    have flag: "interrupt_triggered ?sd \<noteq> 0" using h by (simp add: deliver_all_sigint)
    have "process_events mc i active env st = process_events mc (Suc i) a env ?sd"
      using process_events_step [OF c] h by simp
    also have "\<dots> = Next a ?sd" using flag by (simp add: process_events_stop)
    finally show ?thesis using flag by (simp add: event_loop_interrupted)
  qed
  show ?thesis using a b shutdown_server_effect main_after_loop by blast
qed

theorem shutdown_stops_scan_witness:
  "interrupt_triggered (served\<lparr>interrupt_triggered := 1\<rparr>) \<noteq> 0 \<and>
   process_events 3 2 1 (slot_envs sigint_pass) (served\<lparr>interrupt_triggered := 1\<rparr>) =
     Next 1 (served\<lparr>interrupt_triggered := 1\<rparr>) \<and>
   Suc 0 < (3::nat) \<and> (0::int) < 2 \<and> interrupt_triggered polled = 0 \<and>
   SIGINT \<in> set (signals (slot_envs sigint_pass (Suc 0))) \<and>
   service_slot 3 (Suc 0) (slot_envs sigint_pass (Suc 0)) 2 polled = Next 1 served \<and>
   process_events 3 (Suc 0) 2 (slot_envs sigint_pass) polled =
     Next 1 (served\<lparr>interrupt_triggered := 1\<rparr>) \<and>
   table_ok 3 crowded \<and>
   fd (pfds (snd (shutdown_server 3 3 crowded)) ! 0) = -1 \<and>
   fd (pfds (snd (shutdown_server 3 3 crowded)) ! 1) = -1 \<and>
   fd (pfds (snd (shutdown_server 3 3 crowded)) ! 2) = -1 \<and>
   fd (pfds crowded ! 0) \<notin> open_fds (snd (shutdown_server 3 3 crowded)) \<and>
   fd (pfds crowded ! 1) \<notin> open_fds (snd (shutdown_server 3 3 crowded)) \<and>
   fd (pfds crowded ! 2) \<notin> open_fds (snd (shutdown_server 3 3 crowded)) \<and>
   kernel_timer (snd (shutdown_server 3 3 crowded)) (timers crowded ! 0) = None \<and>
   kernel_timer (snd (shutdown_server 3 3 crowded)) (timers crowded ! 1) = None \<and>
   kernel_timer (snd (shutdown_server 3 3 crowded)) (timers crowded ! 2) = None \<and>
   initialise_server MAX_CONNECTIONS good_start boot = (0, booted) \<and>
   (\<exists>st2. event_loop MAX_CONNECTIONS MAX_CONNECTIONS [ctrl_c_pass] booted = Returned 0 st2 \<and>
      main good_start [ctrl_c_pass] boot =
        Returned EXIT_SUCCESS (snd (shutdown_server MAX_CONNECTIONS MAX_CONNECTIONS st2)))"
proof -
  let ?flagged = "served\<lparr>interrupt_triggered := 1\<rparr>"
  have f: "interrupt_triggered ?flagged \<noteq> 0" by simp
  have p: "process_events 3 2 1 (slot_envs sigint_pass) ?flagged = Next 1 ?flagged"
    using shutdown_stops_scan [where st = ?flagged, THEN conjunct1] f by blast
  have c: "Suc 0 < (3::nat) \<and> (0::int) < 2 \<and> interrupt_triggered polled = 0 \<and>
           SIGINT \<in> set (signals (slot_envs sigint_pass (Suc 0)))"
    by (simp add: polled_def crowded_def sample_def sigint_pass_def)
  have q: "process_events 3 (Suc 0) 2 (slot_envs sigint_pass) polled = Next 1 ?flagged"
    using shutdown_stops_scan [where st = polled and i = "Suc 0" and mc = 3 and active = 2
        and env = "slot_envs sigint_pass" and a = 1 and ?st1.0 = served,
        THEN conjunct2, THEN conjunct1]
      c sigint_pass_client
    by (simp add: sigint_pass_signal)
  have t: "table_ok 3 crowded"
    by (simp add: table_ok_def all_less_3 crowded_def sample_def kernel_timer_def)
  have s: "\<forall>j<3. fd (pfds (snd (shutdown_server 3 3 crowded)) ! j) = -1 \<and>
          fd (pfds crowded ! j) \<notin> open_fds (snd (shutdown_server 3 3 crowded)) \<and>
          kernel_timer (snd (shutdown_server 3 3 crowded)) (timers crowded ! j) = None"
    using shutdown_stops_scan [where st = crowded and mc = 3 and n = 3,
        THEN conjunct2, THEN conjunct2, THEN conjunct1] t
    by blast
  have i0: "interrupt_triggered booted = 0" by (simp add: booted_def boot_def)
  have tc: "timeout_check MAX_CONNECTIONS booted = Ret () booted"
    by (rule timeout_check_clear) (simp add: booted_def boot_def)
  have pr: "poll_res ctrl_c_pass = Poll_failed EINTR" by (simp add: ctrl_c_pass_def)
  let ?s2 = "(deliver_all (poll_signals ctrl_c_pass)
               (elapse (waited ctrl_c_pass) (enter_poll ctrl_c_pass booted)))
             \<lparr>errno := EINTR\<rparr>"
  have rt: "returns ctrl_c_pass" by (simp add: ctrl_c_pass_def)
  have "interrupt_triggered ?s2 \<noteq> 0"
    by (simp add: ctrl_c_pass_def deliver_all_sigint)
  then have l: "event_loop MAX_CONNECTIONS MAX_CONNECTIONS [ctrl_c_pass] booted =
                Returned 0 ?s2"
    using event_loop_poll_interrupted [OF i0 tc rt pr, of MAX_CONNECTIONS "[]"]
    by (simp add: event_loop_interrupted)
  have m: "main good_start [ctrl_c_pass] boot =
        Returned EXIT_SUCCESS (snd (shutdown_server MAX_CONNECTIONS MAX_CONNECTIONS ?s2))"
    using shutdown_stops_scan [where st = booted and ie = good_start and ?st0.0 = boot
        and envs = "[ctrl_c_pass]" and r = 0 and ?st2.0 = ?s2,
        THEN conjunct2, THEN conjunct2, THEN conjunct2]
      start_up l
    by simp
  have s': "fd (pfds (snd (shutdown_server 3 3 crowded)) ! 0) = -1 \<and>
   fd (pfds (snd (shutdown_server 3 3 crowded)) ! 1) = -1 \<and>
   fd (pfds (snd (shutdown_server 3 3 crowded)) ! 2) = -1 \<and>
   fd (pfds crowded ! 0) \<notin> open_fds (snd (shutdown_server 3 3 crowded)) \<and>
   fd (pfds crowded ! 1) \<notin> open_fds (snd (shutdown_server 3 3 crowded)) \<and>
   fd (pfds crowded ! 2) \<notin> open_fds (snd (shutdown_server 3 3 crowded)) \<and>
   kernel_timer (snd (shutdown_server 3 3 crowded)) (timers crowded ! 0) = None \<and>
   kernel_timer (snd (shutdown_server 3 3 crowded)) (timers crowded ! 1) = None \<and>
   kernel_timer (snd (shutdown_server 3 3 crowded)) (timers crowded ! 2) = None"
    using s by (simp add: all_less_3)
  show ?thesis using f p c sigint_pass_client q t s' start_up l m by blast
qed

section \<open>The table keeps its size\<close>

lemma timer_expired_pfds: "pfds (run_state (timer_expired t st)) = pfds st"
  by (simp add: timer_expired_def sys_timer_gettime_def split: option.splits)

lemma check_timeouts_length:
  "length (pfds (run_state (check_timeouts i n st))) = length (pfds st)"
proof (induction i n st rule: check_timeouts.induct)
  case (1 i n st)
  show ?case
  proof (cases "i < n")
    case False
    then show ?thesis by (subst check_timeouts.simps) simp
  next
    case True
    show ?thesis
    proof (cases "0 \<le> fd (pfds st ! i)")
      case False
      then show ?thesis using True "1.IH"(3) by (subst check_timeouts.simps) simp
    next
      case occ: True
      show ?thesis
      proof (cases "timer_expired (timers st ! i) st")
        case (Exit c s)
        then have "pfds s = pfds st" using timer_expired_pfds [of "timers st ! i" st] by simp
        then show ?thesis using True occ Exit by (subst check_timeouts.simps) simp
      next
        case (Ret b s)
        then have p: "pfds s = pfds st" using timer_expired_pfds [of "timers st ! i" st] by simp
        show ?thesis
        proof (cases b)
          case True
          with "1.IH"(1) [OF \<open>i < n\<close> occ Ret] p \<open>i < n\<close> occ Ret show ?thesis
            by (subst check_timeouts.simps) simp
        next
          case False
          with "1.IH"(2) [OF \<open>i < n\<close> occ Ret] p \<open>i < n\<close> occ Ret show ?thesis
            by (subst check_timeouts.simps) simp
        qed
      qed
    qed
  qed
qed

lemma timeout_check_length:
  "length (pfds (run_state (timeout_check n st))) = length (pfds st)"
  using check_timeouts_length [of 1 n "st\<lparr>timeout_triggered := 0\<rparr>"]
  by (simp add: timeout_check_def)

lemma process_events_length:
  "body_state (process_events mc i active env st) = Some st' \<Longrightarrow>
   length (pfds st') = length (pfds st)"
proof (induction mc i active env st rule: process_events.induct)
  case (1 mc i active env st)
  show ?case
  proof (cases "i < mc \<and> 0 < active \<and> interrupt_triggered st = 0")
    case False
    then show ?thesis using "1.prems" by (simp add: process_events_stop)
  next
    case True
    show ?thesis
    proof (cases "service_slot mc i (env i) active st")
      case Out_of_bounds
      then show ?thesis using service_slot_safe by blast
    next
      case (Return r st1)
      then have "body_state (service_slot mc i (env i) active st) = Some st'"
        using True "1.prems" by (simp add: process_events_step)
      from service_slot_quiet [OF this] show ?thesis by simp
    next
      case (Next a st1)
      then have "body_state (service_slot mc i (env i) active st) = Some st1" by simp
      from service_slot_quiet [OF this] have l: "length (pfds st1) = length (pfds st)"
        by simp
      have "body_state (process_events mc (Suc i) a env
              (deliver_all (signals (env i)) st1)) = Some st'"
        using True Next "1.prems" by (simp add: process_events_step)
      from "1.IH" [OF True Next this] l show ?thesis by simp
    qed
  qed
qed

text \<open>However long the loop runs and however it ends, the table has the size it
  started with.\<close>

lemma event_loop_length:
  "final_state (event_loop mc n envs st) = Some st' \<Longrightarrow>
   length (pfds st') = length (pfds st)"
proof (induction envs arbitrary: st)
  case Nil
  show ?case
  proof (cases "interrupt_triggered st \<noteq> 0")
    case True
    then show ?thesis using Nil by (simp add: event_loop_interrupted)
  next
    case False
    then show ?thesis
      using Nil timeout_check_length [of n st]
      by (subst (asm) event_loop.simps) (auto split: run.splits)
  qed
next
  case (Cons e es)
  show ?case
  proof (cases "interrupt_triggered st \<noteq> 0")
    case True
    then show ?thesis using Cons.prems by (simp add: event_loop_interrupted)
  next
    case False
    then have i0: "interrupt_triggered st = 0" by simp
    show ?thesis
    proof (cases "timeout_check n st")
      case (Exit c s)
      then have "event_loop mc n (e # es) st = Exited c s"
        using i0 by (subst event_loop.simps) simp
      then show ?thesis using Cons.prems timeout_check_length [of n st] Exit by simp
    next
      case (Ret u st1)
      then have tc: "timeout_check n st = Ret () st1" by simp
      have l1: "length (pfds st1) = length (pfds st)"
        using timeout_check_length [of n st] Ret by simp
      obtain active st2 where w: "wait_for_events n e st1 = (active, st2)"
        by (cases "wait_for_events n e st1") blast
      have l2: "length (pfds st2) = length (pfds st)"
        using wait_for_events_frame [of n e st1] w l1 by simp
      show ?thesis
      proof (cases "returns e")
      case False
      then have "event_loop mc n (e # es) st = Blocked (enter_poll e st1)"
        using i0 tc by (subst event_loop.simps) simp
      then have "st' = enter_poll e st1" using Cons.prems by simp
      then show ?thesis using l1 by simp
      next
      case rt: True
      note step = event_loop_pass [OF i0 tc rt w, of mc es]
      show ?thesis
      proof (cases "active \<le> 0")
        case True
        show ?thesis
        proof (cases "errno st2 = EINTR")
          case True
          then have "event_loop mc n (e # es) st = event_loop mc n es st2"
            using step \<open>active \<le> 0\<close> by simp
          then show ?thesis using Cons.IH [of st2] Cons.prems l2 by simp
        next
          case False
          then show ?thesis using step \<open>active \<le> 0\<close> Cons.prems l2 by auto
        qed
      next
        case pos: False
        show ?thesis
        proof (cases "process_events mc 0 active (slot_envs e) st2")
          case Out_of_bounds
          then show ?thesis using process_events_safe by blast
        next
          case (Return r st3)
          then have "body_state (process_events mc 0 active (slot_envs e) st2) = Some st3"
            by simp
          from process_events_length [OF this] show ?thesis
            using step pos Return Cons.prems l2 by auto
        next
          case (Next a st3)
          then have "body_state (process_events mc 0 active (slot_envs e) st2) = Some st3"
            by simp
          from process_events_length [OF this] have l3: "length (pfds st3) = length (pfds st)"
            using l2 by simp
          have "event_loop mc n (e # es) st = event_loop mc n es st3"
            using step pos Next by simp
          then show ?thesis using Cons.IH [of st3] Cons.prems l3 by simp
        qed
      qed
      qed
    qed
  qed
qed

lemma table_ok_booted: "table_ok MAX_CONNECTIONS booted"
proof -
  have u: "[0, 1, 2, 3, 4, 5, 6, 7, 8, 9::nat] = [0..<10]" by code_simp
  have tm: "timers booted = [0..<10]" using u by (simp add: booted_def boot_def)
  have kt: "ktimers booted = replicate 10 (Some disarmed)"
    by (simp add: booted_def boot_def)
  have pf: "pfds booted = \<lparr>fd = 3, events = 1, revents = 0\<rparr> #
                          replicate 9 \<lparr>fd = -1, events = 0, revents = 0\<rparr>"
    by (simp add: booted_def boot_def)
  have f: "\<And>j. j < 10 \<Longrightarrow> fd (pfds booted ! j) = (if j = 0 then 3 else -1)"
    unfolding pf by (simp add: nth_Cons')
  have a: "10 \<le> length (pfds booted) \<and> 10 \<le> length (timers booted)"
    by (simp add: pf tm)
  have b: "\<forall>j<10. kernel_timer booted (timers booted ! j) \<noteq> None"
    by (simp add: kernel_timer_def tm kt)
  have c: "\<forall>j<10. \<forall>k<10. j \<noteq> k \<longrightarrow> timers booted ! j \<noteq> timers booted ! k"
    by (simp add: tm)
  have d: "\<forall>j<10. \<forall>k<10. j \<noteq> k \<and> 0 \<le> fd (pfds booted ! j) \<longrightarrow>
             fd (pfds booted ! j) \<noteq> fd (pfds booted ! k)"
    by (simp add: f)
  show ?thesis unfolding table_ok_def MAX_CONNECTIONS_def using a b c d by blast
qed


section \<open>A sample run\<close>

lemma sigint_pass_run:
  "event_loop 3 3 [sigint_pass] crowded = Returned 0 (served\<lparr>interrupt_triggered := 1\<rparr>)"
proof -
  let ?env = "slot_envs sigint_pass"
  let ?end = "served\<lparr>interrupt_triggered := 1\<rparr>"
  have c0: "0 < (3::nat) \<and> (0::int) < 2 \<and> interrupt_triggered polled = 0"
    by (simp add: polled_def crowded_def sample_def)
  have c1: "Suc 0 < (3::nat) \<and> (0::int) < 2 \<and> interrupt_triggered polled = 0"
    by (simp add: polled_def crowded_def sample_def)
  have d0: "deliver_all (signals (?env 0)) polled = polled" by (simp add: sigint_pass_def)
  have p2: "process_events 3 (Suc (Suc 0)) 1 ?env ?end = Next 1 ?end"
    by (rule process_events_stop) simp
  have p1: "process_events 3 (Suc 0) 2 ?env polled = Next 1 ?end"
    by (simp only: process_events_step [OF c1] sigint_pass_client body.case
        sigint_pass_signal p2)
  have p0: "process_events 3 0 2 ?env polled = Next 1 ?end"
    by (simp only: process_events_step [OF c0] sigint_pass_listener body.case d0 p1)
  have i0: "interrupt_triggered crowded = 0" by (simp add: crowded_def sample_def)
  have c: "timeout_check 3 crowded = Ret () crowded"
    by (rule timeout_check_clear) (simp add: crowded_def sample_def)
  have "event_loop 3 3 [sigint_pass] crowded = event_loop 3 3 [] ?end"
    using event_loop_pass [OF i0 c _ sigint_pass_poll, of 3 "[]"] p0
    by (simp add: sigint_pass_def)
  also have "\<dots> = Returned 0 ?end" by (rule event_loop_interrupted) simp
  finally show ?thesis .
qed

text \<open>C6 as the specification states it fails here: \<open>poll\<close> reports input on
  clients 1 and 2, \<open>SIGINT\<close> arrives while client 1 is handled, and the loop
  returns with the event of client 2 reported but never handled: nothing is read
  from it, and its slot is not among those the scan handled.\<close>

theorem shutdown_abandons_counterexample:
  "event_loop 3 3 [sigint_pass] crowded = Returned 0 (served\<lparr>interrupt_triggered := 1\<rparr>) \<and>
   revents (pfds served ! 2) = POLLIN \<and> 0 \<le> fd (pfds served ! 2) \<and>
   trace served = [Wait, Service 1] \<and> stdout served = [(1, ''a'')]"
  using sigint_pass_run
  by (simp add: served_def polled_def crowded_def sample_def POLLIN_def)

text \<open>
  C1. For a table of \<open>mc \<ge> 2\<close> slots, \<open>accept_connection\<close> keeps the table at
  \<open>mc\<close> slots, so never more than \<open>mc - 1\<close> client slots are occupied. A newly
  accepted descriptor is either placed in a client slot that was free, its timer
  armed, or closed again. When every client slot is occupied the call returns 1,
  reports that too many connections are accepted, closes the new descriptor, and
  leaves the table, the timer handles, the timers' deadlines and the open
  descriptors of the existing connections exactly as they were. The same bound holds
  for the loop as a whole: however it is left after any number of passes, the table
  has \<open>mc\<close> slots, so that at most \<open>mc - 1\<close> clients are connected.
\<close>

theorem accept_connection_capacity:
  assumes "2 \<le> mc" and "length (pfds st) = mc"
  shows "length (pfds (snd (accept_connection mc ar st))) = mc \<and>
         length (occupied_clients (snd (accept_connection mc ar st))) \<le> mc - 1 \<and>
         (fd (pfds st ! 0) \<in> open_fds st \<and> ar = Accepted s \<and> 0 \<le> s \<and> s \<notin> open_fds st \<longrightarrow>
            (fst (accept_connection mc ar st) = 0 \<and>
             (\<exists>j. 1 \<le> j \<and> j < mc \<and> fd (pfds st ! j) < 0 \<and>
                  pfds (snd (accept_connection mc ar st)) =
                    (pfds st)[j := (pfds st ! j)\<lparr>fd := s, events := POLLIN\<rparr>] \<and>
                  kernel_timer (snd (accept_connection mc ar st)) (timers st ! j) =
                    Some full_deadline)) \<or>
            (fst (accept_connection mc ar st) = 1 \<and>
             s \<notin> open_fds (snd (accept_connection mc ar st)))) \<and>
         ((\<forall>i. 1 \<le> i \<and> i < mc \<longrightarrow> 0 \<le> fd (pfds st ! i)) \<and>
          fd (pfds st ! 0) \<in> open_fds st \<and> ar = Accepted s \<and> 0 \<le> s \<and> s \<notin> open_fds st \<longrightarrow>
            fst (accept_connection mc ar st) = 1 \<and>
            stderr (snd (accept_connection mc ar st)) = stderr st @ [Too_many_connections] \<and>
            s \<notin> open_fds (snd (accept_connection mc ar st)) \<and>
            pfds (snd (accept_connection mc ar st)) = pfds st \<and>
            timers (snd (accept_connection mc ar st)) = timers st \<and>
            ktimers (snd (accept_connection mc ar st)) = ktimers st \<and>
            open_fds (snd (accept_connection mc ar st)) = open_fds st) \<and>
         (final_state (event_loop mc n envs st) = Some st' \<longrightarrow>
            length (pfds st') = mc \<and> length (occupied_clients st') \<le> mc - 1)"
proof -
  let ?r = "accept_connection mc ar st"
  have len: "length (pfds (snd ?r)) = mc"
    using accept_connection_length [of mc st ar] assms(2) by simp
  have cnt: "length (occupied_clients (snd ?r)) \<le> mc - 1"
    using occupied_clients_bound [of "snd ?r"] len by simp
  have placed: "(fst ?r = 0 \<and>
             (\<exists>j. 1 \<le> j \<and> j < mc \<and> fd (pfds st ! j) < 0 \<and>
                  pfds (snd ?r) = (pfds st)[j := (pfds st ! j)\<lparr>fd := s, events := POLLIN\<rparr>] \<and>
                  kernel_timer (snd ?r) (timers st ! j) = Some full_deadline)) \<or>
            (fst ?r = 1 \<and> s \<notin> open_fds (snd ?r))"
    if h: "fd (pfds st ! 0) \<in> open_fds st \<and> ar = Accepted s \<and> 0 \<le> s \<and> s \<notin> open_fds st"
  proof -
    let ?st1 = "st\<lparr>open_fds := insert s (open_fds st)\<rparr>"
    have eq: "?r = find_slot mc 1 s ?st1"
      using h by (simp add: accept_connection_def sys_accept_def)
    have l1: "mc \<le> length (pfds ?st1)" using assms(2) by simp
    have k1: "kernel_timer ?st1 = kernel_timer st" by (rule kernel_timer_cong) simp
    from find_slot_stored_or_closed [OF l1, of 1 s] show ?thesis
      unfolding eq by auto
  qed
  have full: "fst ?r = 1 \<and> stderr (snd ?r) = stderr st @ [Too_many_connections] \<and>
            s \<notin> open_fds (snd ?r) \<and> pfds (snd ?r) = pfds st \<and> timers (snd ?r) = timers st \<and>
            ktimers (snd ?r) = ktimers st \<and> open_fds (snd ?r) = open_fds st"
    if h: "(\<forall>i. 1 \<le> i \<and> i < mc \<longrightarrow> 0 \<le> fd (pfds st ! i)) \<and>
          fd (pfds st ! 0) \<in> open_fds st \<and> ar = Accepted s \<and> 0 \<le> s \<and> s \<notin> open_fds st"
  proof -
    let ?st1 = "st\<lparr>open_fds := insert s (open_fds st)\<rparr>"
    have eq: "?r = find_slot mc 1 s ?st1"
      using h by (simp add: accept_connection_def sys_accept_def)
    have occ: "\<forall>j. 1 \<le> j \<and> j < mc \<longrightarrow> 0 \<le> fd (pfds ?st1 ! j)" using h by simp
    show ?thesis unfolding eq find_slot_full [OF occ] using h by simp
  qed
  have loop: "length (pfds st') = mc \<and> length (occupied_clients st') \<le> mc - 1"
    if "final_state (event_loop mc n envs st) = Some st'"
    using event_loop_length [OF that] occupied_clients_bound [of st'] assms(2) by simp
  show ?thesis using len cnt placed full loop by blast
qed

theorem accept_connection_capacity_witness:
  "(2::nat) \<le> 3 \<and> length (pfds crowded) = 3 \<and>
   0 \<le> fd (pfds crowded ! 1) \<and> 0 \<le> fd (pfds crowded ! 2) \<and>
   fd (pfds crowded ! 0) \<in> open_fds crowded \<and> (0::int) \<le> 6 \<and> 6 \<notin> open_fds crowded \<and>
   fst (accept_connection 3 (Accepted 6) crowded) = 1 \<and>
   stderr (snd (accept_connection 3 (Accepted 6) crowded)) = [Too_many_connections] \<and>
   pfds (snd (accept_connection 3 (Accepted 6) crowded)) = pfds crowded \<and>
   ktimers (snd (accept_connection 3 (Accepted 6) crowded)) = ktimers crowded \<and>
   open_fds (snd (accept_connection 3 (Accepted 6) crowded)) = open_fds crowded \<and>
   final_state (event_loop 3 3 [sigint_pass] crowded) =
     Some (served\<lparr>interrupt_triggered := 1\<rparr>) \<and>
   length (pfds (served\<lparr>interrupt_triggered := 1\<rparr>)) = 3 \<and>
   length (occupied_clients (served\<lparr>interrupt_triggered := 1\<rparr>)) \<le> 3 - 1"
proof -
  have h1: "(2::nat) \<le> 3" by simp
  have h2: "length (pfds crowded) = 3" by (simp add: crowded_def)
  have h3: "\<forall>i. 1 \<le> i \<and> i < 3 \<longrightarrow> 0 \<le> fd (pfds crowded ! i)"
    by (auto simp: crowded_def nth_Cons split: nat.splits)
  have h4: "fd (pfds crowded ! 0) \<in> open_fds crowded \<and> (0::int) \<le> 6 \<and> 6 \<notin> open_fds crowded"
    by (simp add: crowded_def)
  have e: "stderr crowded = []" by (simp add: crowded_def sample_def)
  have h5: "0 \<le> fd (pfds crowded ! 1) \<and> 0 \<le> fd (pfds crowded ! 2)"
    by (simp add: crowded_def)
  have r: "final_state (event_loop 3 3 [sigint_pass] crowded) =
             Some (served\<lparr>interrupt_triggered := 1\<rparr>)"
    by (simp add: sigint_pass_run)
  have l: "length (pfds (served\<lparr>interrupt_triggered := 1\<rparr>)) = 3 \<and>
           length (occupied_clients (served\<lparr>interrupt_triggered := 1\<rparr>)) \<le> 3 - 1"
    using accept_connection_capacity [OF h1 h2, where n = 3 and envs = "[sigint_pass]"
        and st' = "served\<lparr>interrupt_triggered := 1\<rparr>"] r
    by blast
  have m: "fst (accept_connection 3 (Accepted 6) crowded) = 1 \<and>
   stderr (snd (accept_connection 3 (Accepted 6) crowded)) = [Too_many_connections] \<and>
   pfds (snd (accept_connection 3 (Accepted 6) crowded)) = pfds crowded \<and>
   ktimers (snd (accept_connection 3 (Accepted 6) crowded)) = ktimers crowded \<and>
   open_fds (snd (accept_connection 3 (Accepted 6) crowded)) = open_fds crowded"
    using h2 h3 h4 h5 accept_connection_capacity [OF h1 h2, of "Accepted 6" 6]
    by (simp add: e)
  show ?thesis using h1 h2 h4 h5 m r l by blast
qed

end
